theory Spec2Isabelle
  imports Complex_Main
begin

section \<open>JavaScript numbers\<close>

text \<open>
  A JavaScript \<open>number\<close> is modelled as a finite real or one of the three non-finite
  values. The non-finite cases follow IEEE 754 as JavaScript exposes it: every comparison
  with \<open>NaN\<close> is false, \<open>Infinity - Infinity\<close> and \<open>0 * Infinity\<close> are \<open>NaN\<close>, and so
  on. The operations of this section compute exactly on finite values (no rounding, no
  overflow, no signed zero). Where a result is floored into an array index, in the bucket
  partition of the sampler, rounding decides the index, and the computation is done in
  double precision with \<open>round_double\<close> of the next section.
\<close>

datatype jsnum = Num real | PosInf | NegInf | NaN

fun isFinite :: "jsnum \<Rightarrow> bool" where
  "isFinite (Num r) = True"
| "isFinite _ = False"

fun js_lt :: "jsnum \<Rightarrow> jsnum \<Rightarrow> bool" where
  "js_lt NaN _ = False"
| "js_lt _ NaN = False"
| "js_lt (Num a) (Num b) = (a < b)"
| "js_lt (Num a) PosInf = True"
| "js_lt (Num a) NegInf = False"
| "js_lt PosInf _ = False"
| "js_lt NegInf NegInf = False"
| "js_lt NegInf _ = True"

definition js_gt :: "jsnum \<Rightarrow> jsnum \<Rightarrow> bool" where
  "js_gt a b = js_lt b a"

fun js_eq :: "jsnum \<Rightarrow> jsnum \<Rightarrow> bool" where
  "js_eq NaN _ = False"
| "js_eq _ NaN = False"
| "js_eq a b = (a = b)"

fun js_neg :: "jsnum \<Rightarrow> jsnum" where
  "js_neg (Num a) = Num (- a)"
| "js_neg PosInf = NegInf"
| "js_neg NegInf = PosInf"
| "js_neg NaN = NaN"

fun js_add :: "jsnum \<Rightarrow> jsnum \<Rightarrow> jsnum" where
  "js_add NaN _ = NaN"
| "js_add _ NaN = NaN"
| "js_add (Num a) (Num b) = Num (a + b)"
| "js_add (Num a) b = b"
| "js_add a (Num b) = a"
| "js_add PosInf PosInf = PosInf"
| "js_add NegInf NegInf = NegInf"
| "js_add _ _ = NaN"

definition js_sub :: "jsnum \<Rightarrow> jsnum \<Rightarrow> jsnum" where
  "js_sub a b = js_add a (js_neg b)"

text \<open>The sign of a number that is not \<open>NaN\<close>: \<open>-1\<close>, \<open>0\<close> or \<open>1\<close>.\<close>

fun js_sgn :: "jsnum \<Rightarrow> int" where
  "js_sgn (Num a) = (if a < 0 then - 1 else if a = 0 then 0 else 1)"
| "js_sgn PosInf = 1"
| "js_sgn NegInf = - 1"
| "js_sgn NaN = 0"

definition inf_of_sign :: "int \<Rightarrow> jsnum" where
  "inf_of_sign s = (if s = 0 then NaN else if 0 < s then PosInf else NegInf)"

fun js_mul :: "jsnum \<Rightarrow> jsnum \<Rightarrow> jsnum" where
  "js_mul NaN _ = NaN"
| "js_mul _ NaN = NaN"
| "js_mul (Num a) (Num b) = Num (a * b)"
| "js_mul a b = inf_of_sign (js_sgn a * js_sgn b)"

fun js_div :: "jsnum \<Rightarrow> jsnum \<Rightarrow> jsnum" where
  "js_div NaN _ = NaN"
| "js_div _ NaN = NaN"
| "js_div (Num a) (Num b) = (if b = 0 then inf_of_sign (js_sgn (Num a)) else Num (a / b))"
| "js_div (Num a) _ = Num 0"
| "js_div a (Num b) = inf_of_sign (js_sgn a * (if b < 0 then - 1 else 1))"
| "js_div _ _ = NaN"

text \<open>\<open>Math.hypot\<close>: an infinite argument gives \<open>Infinity\<close> even beside a \<open>NaN\<close>.\<close>

fun js_hypot :: "jsnum \<Rightarrow> jsnum \<Rightarrow> jsnum" where
  "js_hypot (Num a) (Num b) = Num (sqrt (a * a + b * b))"
| "js_hypot PosInf _ = PosInf"
| "js_hypot NegInf _ = PosInf"
| "js_hypot _ PosInf = PosInf"
| "js_hypot _ NegInf = PosInf"
| "js_hypot _ _ = NaN"

section \<open>IEEE 754 double precision\<close>

text \<open>
  A quotient or product of two doubles is the exact result rounded to the nearest double,
  ties to the even significand. \<open>binexp k x\<close> is the binary exponent of a positive \<open>x\<close>,
  the \<open>e\<close> with \<open>2^e \<le> x < 2^(e+1)\<close>, found by halving or doubling \<open>x\<close> at most \<open>k\<close>
  times; \<open>ulp e\<close> is the spacing \<open>2^(e-52)\<close> of the doubles with that exponent. The values
  rounded here are zero or lie between 1 and the length of an array, far inside the normal
  range, so overflow and subnormal numbers do not arise.
\<close>

fun binexp :: "nat \<Rightarrow> real \<Rightarrow> int" where
  "binexp 0 x = 0"
| "binexp (Suc k) x =
     (if 2 \<le> x then binexp k (x / 2) + 1 else if x < 1 then binexp k (x * 2) - 1 else 0)"

definition roundHalfEven :: "real \<Rightarrow> int" where
  "roundHalfEven q =
     (let f = \<lfloor>q\<rfloor>
      in if q - of_int f < 1 / 2 then f
         else if 1 / 2 < q - of_int f then f + 1
         else if even f then f else f + 1)"

definition ulp :: "int \<Rightarrow> real" where
  "ulp e = (if 52 \<le> e then 2 ^ nat (e - 52) else 1 / 2 ^ nat (52 - e))"

definition round_double :: "real \<Rightarrow> real" where
  "round_double x =
     (if x = 0 then 0
      else sgn x * of_int (roundHalfEven (\<bar>x\<bar> / ulp (binexp 2200 \<bar>x\<bar>))) * ulp (binexp 2200 \<bar>x\<bar>))"

section \<open>Data points and the bucket sampler (\<open>sampleSeries.ts\<close>)\<close>

text \<open>
  A \<open>DataPoint\<close> is a tuple \<open>[x, y, size?]\<close> or an object \<open>{x, y, size?}\<close>. The optional
  size is \<open>None\<close> when the field is absent (\<open>undefined\<close>).
\<close>

datatype DataPoint =
    DataPointTuple jsnum jsnum "jsnum option"
  | DataPointObject jsnum jsnum "jsnum option"

fun getXY :: "DataPoint \<Rightarrow> jsnum \<times> jsnum" where
  "getXY (DataPointTuple x y s) = (x, y)"
| "getXY (DataPointObject x y s) = (x, y)"

fun getSize :: "DataPoint \<Rightarrow> jsnum option" where
  "getSize (DataPointTuple x y s) = s"
| "getSize (DataPointObject x y s) = s"

text \<open>\<open>Math.floor\<close>, then \<open>0\<close> unless the result is finite. The result is an integer.\<close>

fun clampTargetPoints :: "jsnum \<Rightarrow> int" where
  "clampTargetPoints (Num r) = \<lfloor>r\<rfloor>"
| "clampTargetPoints _ = 0"

datatype BucketMode = Average | Max | Min

text \<open>
  The index range of one interior bucket, as the loop body of \<open>sampleByBuckets\<close> computes
  it from \<open>n = data.length\<close>, the threshold and the bucket number. \<open>n - 2\<close>,
  \<open>threshold - 2\<close> and \<open>bucket + 1\<close> are integers and exact; the quotient \<open>bucketSize\<close> and
  its products with the bucket numbers are doubles, rounded before \<open>Math.floor\<close>. The loop
  only runs with \<open>3 \<le> threshold < n\<close>, where these doubles are not negative, so each
  floor is a natural number.
\<close>

definition bucketSize :: "nat \<Rightarrow> int \<Rightarrow> real" where
  "bucketSize n threshold = round_double ((real n - 2) / (real_of_int threshold - 2))"

definition bucketRange :: "nat \<Rightarrow> int \<Rightarrow> nat \<Rightarrow> nat \<times> nat" where
  "bucketRange n threshold bucket =
     (let lastIndex = n - 1;
          rangeStart = nat \<lfloor>round_double (bucketSize n threshold * real bucket)\<rfloor> + 1;
          rangeEndExclusive =
            min (nat \<lfloor>round_double (bucketSize n threshold * real (bucket + 1))\<rfloor> + 1) lastIndex
      in if rangeStart \<ge> rangeEndExclusive
         then (let rangeStart' = min rangeStart (lastIndex - 1)
               in (rangeStart', min (rangeStart' + 1) lastIndex))
         else (rangeStart, rangeEndExclusive))"

text \<open>The points \<open>data[i]\<close> for \<open>rangeStart \<le> i < rangeEndExclusive\<close>, in index order.\<close>

definition bucketPoints :: "DataPoint list \<Rightarrow> nat \<times> nat \<Rightarrow> DataPoint list" where
  "bucketPoints data r = map (\<lambda>i. data ! i) [fst r..<snd r]"

text \<open>
  The accumulators of the \<open>average\<close> loop. Only finite values are ever added, so the sums
  are finite.
\<close>

record avg_acc =
  sumX :: real
  sumY :: real
  sumSize :: real
  count :: nat
  sizeCount :: nat

definition avg_init :: avg_acc where
  "avg_init = \<lparr>sumX = 0, sumY = 0, sumSize = 0, count = 0, sizeCount = 0\<rparr>"

fun avg_step :: "avg_acc \<Rightarrow> DataPoint \<Rightarrow> avg_acc" where
  "avg_step a p =
     (case getXY p of
        (Num x, Num y) \<Rightarrow>
          (let a' = a\<lparr>sumX := sumX a + x, sumY := sumY a + y, count := count a + 1\<rparr>
           in case getSize p of
                Some (Num s) \<Rightarrow> a'\<lparr>sumSize := sumSize a' + s, sizeCount := sizeCount a' + 1\<rparr>
              | _ \<Rightarrow> a')
      | _ \<Rightarrow> a)"

fun avg_loop :: "avg_acc \<Rightarrow> DataPoint list \<Rightarrow> avg_acc" where
  "avg_loop a [] = a"
| "avg_loop a (p # ps) = avg_loop (avg_step a p) ps"

definition avg_chosen :: "avg_acc \<Rightarrow> DataPoint option" where
  "avg_chosen a =
     (if count a > 0
      then (let avgX = sumX a / real (count a); avgY = sumY a / real (count a)
            in if sizeCount a > 0
               then Some (DataPointTuple (Num avgX) (Num avgY) (Some (Num (sumSize a / real (sizeCount a)))))
               else Some (DataPointTuple (Num avgX) (Num avgY) None))
      else None)"

text \<open>
  The \<open>max\<close>/\<open>min\<close> loop: the state is \<open>bestY\<close> and \<open>chosen\<close>; a point replaces the
  choice only when its \<open>y\<close> is finite and strictly better.
\<close>

fun extreme_step :: "BucketMode \<Rightarrow> jsnum \<times> DataPoint option \<Rightarrow> DataPoint \<Rightarrow> jsnum \<times> DataPoint option" where
  "extreme_step mode (bestY, chosen) p =
     (let y = snd (getXY p)
      in if \<not> isFinite y then (bestY, chosen)
         else if mode = Max then (if js_gt y bestY then (y, Some p) else (bestY, chosen))
         else (if js_lt y bestY then (y, Some p) else (bestY, chosen)))"

fun extreme_loop :: "BucketMode \<Rightarrow> jsnum \<times> DataPoint option \<Rightarrow> DataPoint list \<Rightarrow> jsnum \<times> DataPoint option" where
  "extreme_loop mode st [] = st"
| "extreme_loop mode st (p # ps) = extreme_loop mode (extreme_step mode st p) ps"

definition bucketChosen :: "BucketMode \<Rightarrow> DataPoint list \<Rightarrow> DataPoint option" where
  "bucketChosen mode ps =
     (if mode = Average then avg_chosen (avg_loop avg_init ps)
      else snd (extreme_loop mode (if mode = Max then NegInf else PosInf, None) ps))"

text \<open>One pass of the loop body: \<open>out[bucket + 1] = chosen ?? data[rangeStart]\<close>.\<close>

definition bucketOut :: "DataPoint list \<Rightarrow> int \<Rightarrow> BucketMode \<Rightarrow> nat \<Rightarrow> DataPoint" where
  "bucketOut data threshold mode bucket =
     (let r = bucketRange (length data) threshold bucket
      in case bucketChosen mode (bucketPoints data r) of
           Some p \<Rightarrow> p
         | None \<Rightarrow> data ! fst r)"

definition sampleByBuckets :: "DataPoint list \<Rightarrow> jsnum \<Rightarrow> BucketMode \<Rightarrow> DataPoint list" where
  "sampleByBuckets data targetPoints mode =
     (let n = length data; threshold = clampTargetPoints targetPoints
      in if threshold \<le> 0 \<or> n = 0 then []
         else if threshold = 1 then [data ! 0]
         else if threshold = 2 then (if n \<ge> 2 then [data ! 0, data ! (n - 1)] else [data ! 0])
         else if int n \<le> threshold then data
         else data ! 0
              # map (bucketOut data threshold mode) [0..<nat (threshold - 2)]
              @ [data ! (n - 1)])"

datatype SeriesSampling =
  Sampling_none | Sampling_lttb | Sampling_average | Sampling_max | Sampling_min | Sampling_other

text \<open>
  The entry point. \<open>lttbSample\<close> lives in another module and is a parameter here; the
  last case is the source's defensive \<open>default\<close> branch.
\<close>

definition sampleSeriesDataPoints ::
  "(DataPoint list \<Rightarrow> int \<Rightarrow> DataPoint list) \<Rightarrow> DataPoint list \<Rightarrow> SeriesSampling \<Rightarrow> jsnum \<Rightarrow> DataPoint list" where
  "sampleSeriesDataPoints lttbSample data sampling samplingThreshold =
     (let threshold = clampTargetPoints samplingThreshold
      in if sampling = Sampling_none then data
         else if \<not> (threshold > 0) then data
         else if int (length data) \<le> threshold then data
         else (case sampling of
                 Sampling_lttb \<Rightarrow> lttbSample data threshold
               | Sampling_average \<Rightarrow> sampleByBuckets data (Num (real_of_int threshold)) Average
               | Sampling_max \<Rightarrow> sampleByBuckets data (Num (real_of_int threshold)) Max
               | Sampling_min \<Rightarrow> sampleByBuckets data (Num (real_of_int threshold)) Min
               | _ \<Rightarrow> data))"

section \<open>Touch gestures (\<open>createInsideZoom.ts\<close>, touch \<open>pointermove\<close> handler)\<close>

text \<open>
  The handler is the one the implementation plan for touch gestures gives: the branch
  for one active pointer (pan) and the branch for two (pinch), with the state variables
  \<open>previousPinchDist\<close> (initially \<open>0\<close>) and \<open>previousPinchMidX\<close> (initially \<open>NaN\<close>),
  both reset whenever a pointer is added or removed.

  \<open>activePointers\<close> is a \<open>Map<number, {x, y}>\<close>. A JavaScript \<open>Map\<close> iterates in
  insertion order, and \<open>set\<close> on a present key replaces the value in place, so the map is
  an association list with that update; \<open>size\<close> is its length.
\<close>

record point =
  pt_x :: jsnum
  pt_y :: jsnum

type_synonym pointers = "(int \<times> point) list"

fun map_set :: "int \<Rightarrow> point \<Rightarrow> pointers \<Rightarrow> pointers" where
  "map_set k v [] = [(k, v)]"
| "map_set k v ((k', v') # m) = (if k = k' then (k, v) # m else (k', v') # map_set k v m)"

text \<open>
  The \<open>ZoomState\<close> interface the handler drives, over any implementation state \<open>'z\<close>.
  The handler's state carries the zoom object and, beside it, the log of the calls made on
  it, in order.
\<close>

record 'z ZoomState =
  getRange :: "'z \<Rightarrow> jsnum \<times> jsnum"
  zoomIn :: "jsnum \<Rightarrow> jsnum \<Rightarrow> 'z \<Rightarrow> 'z"
  zoomOut :: "jsnum \<Rightarrow> jsnum \<Rightarrow> 'z \<Rightarrow> 'z"
  pan :: "jsnum \<Rightarrow> 'z \<Rightarrow> 'z"

datatype zoom_call = ZoomIn jsnum jsnum | ZoomOut jsnum jsnum | Pan jsnum

record 'z inside_zoom =
  activePointers :: pointers
  previousPinchDist :: jsnum
  previousPinchMidX :: jsnum
  zoom :: 'z
  calls :: "zoom_call list"

text \<open>
  The last event-manager payload (\<open>lastPointer\<close>, possibly \<open>null\<close>) and the canvas
  rectangle are read at each event, so they travel with the event.
\<close>

record payload =
  lp_x :: jsnum
  lp_gridX :: "jsnum option"
  lp_plotWidthCss :: jsnum

record touch_event =
  pointerId :: int
  clientX :: jsnum
  clientY :: jsnum
  lastPointer :: "payload option"
  rect_left :: jsnum
  rect_width :: jsnum

definition do_call :: "'z ZoomState \<Rightarrow> zoom_call \<Rightarrow> 'z inside_zoom \<Rightarrow> 'z inside_zoom" where
  "do_call zs c st =
     st\<lparr>zoom := (case c of
                    ZoomIn center factor \<Rightarrow> zoomIn zs center factor (zoom st)
                  | ZoomOut center factor \<Rightarrow> zoomOut zs center factor (zoom st)
                  | Pan delta \<Rightarrow> pan zs delta (zoom st)),
        calls := calls st @ [c]\<rparr>"

text \<open>\<open>activePointers.set(e.pointerId, { x: e.clientX, y: e.clientY })\<close>.\<close>

definition trackMove :: "touch_event \<Rightarrow> 'z inside_zoom \<Rightarrow> 'z inside_zoom" where
  "trackMove e st =
     st\<lparr>activePointers :=
          map_set (pointerId e) \<lparr>pt_x = clientX e, pt_y = clientY e\<rparr> (activePointers st)\<rparr>"

text \<open>Single-finger pan: the branch for \<open>activePointers.size === 1\<close>.\<close>

definition touchPan :: "'z ZoomState \<Rightarrow> touch_event \<Rightarrow> 'z inside_zoom \<Rightarrow> 'z inside_zoom" where
  "touchPan zs e st =
     (case map_of (activePointers st) (pointerId e) of
        None \<Rightarrow> st
      | Some prev \<Rightarrow>
          (let dxCss = js_sub (clientX e) (pt_x prev);
               st1 = trackMove e st
           in if \<not> isFinite dxCss \<or> js_eq dxCss (Num 0) then st1
              else
                (let plotWidthCss = (case lastPointer e of None \<Rightarrow> Num 0 | Some lp \<Rightarrow> lp_plotWidthCss lp)
                 in if \<not> js_gt plotWidthCss (Num 0) then st1
                    else
                      (let span = js_sub (snd (getRange zs (zoom st1))) (fst (getRange zs (zoom st1)))
                       in if \<not> isFinite span \<or> js_eq span (Num 0) then st1
                          else
                            (let deltaPct = js_neg (js_mul (js_div dxCss plotWidthCss) span)
                             in if \<not> isFinite deltaPct \<or> js_eq deltaPct (Num 0) then st1
                                else do_call zs (Pan deltaPct) st1)))))"

text \<open>
  Pinch: the branch for \<open>activePointers.size === 2\<close>. \<open>clamp\<close> is imported from a
  utility module and is a parameter. \<open>[p1, p2]\<close> are the first two values of the map after
  the update; the branch is entered with two entries, so they exist.
\<close>

definition pinchDist :: "point \<Rightarrow> point \<Rightarrow> jsnum" where
  "pinchDist p1 p2 = js_hypot (js_sub (pt_x p1) (pt_x p2)) (js_sub (pt_y p1) (pt_y p2))"

definition pinchMidX :: "point \<Rightarrow> point \<Rightarrow> jsnum" where
  "pinchMidX p1 p2 = js_div (js_add (pt_x p1) (pt_x p2)) (Num 2)"

text \<open>The pinch centre: the midpoint of the two contacts mapped into percent space.\<close>

definition pinchPlotWidth :: "touch_event \<Rightarrow> jsnum" where
  "pinchPlotWidth e = (case lastPointer e of None \<Rightarrow> rect_width e | Some lp \<Rightarrow> lp_plotWidthCss lp)"

definition pinchCenterPct ::
  "(jsnum \<Rightarrow> jsnum \<Rightarrow> jsnum \<Rightarrow> jsnum) \<Rightarrow> 'z ZoomState \<Rightarrow> touch_event \<Rightarrow> point \<Rightarrow> point
     \<Rightarrow> 'z inside_zoom \<Rightarrow> jsnum" where
  "pinchCenterPct clamp zs e p1 p2 st =
     (let midX = pinchMidX p1 p2;
          gridLeft = (case lastPointer e of
                        None \<Rightarrow> Num 0
                      | Some lp \<Rightarrow> (case lp_gridX lp of None \<Rightarrow> Num 0 | Some g \<Rightarrow> js_sub (lp_x lp) g));
          plotWidthCss = pinchPlotWidth e;
          r = clamp (js_div (js_sub (js_sub midX (rect_left e)) gridLeft) plotWidthCss) (Num 0) (Num 1);
          start = fst (getRange zs (zoom st));
          span = js_sub (snd (getRange zs (zoom st))) start
      in clamp (js_add start (js_mul r span)) (Num 0) (Num 100))"

text \<open>
  The body of \<open>if (previousPinchDist > 0 && currentDist > 0)\<close>: the zoom call, then the
  pan from the midpoint shift. The range is read once, before the zoom call.
\<close>

definition pinchZoomPan ::
  "(jsnum \<Rightarrow> jsnum \<Rightarrow> jsnum \<Rightarrow> jsnum) \<Rightarrow> 'z ZoomState \<Rightarrow> touch_event \<Rightarrow> point \<Rightarrow> point
     \<Rightarrow> 'z inside_zoom \<Rightarrow> 'z inside_zoom" where
  "pinchZoomPan clamp zs e p1 p2 st =
     (let currentDist = pinchDist p1 p2;
          factor = js_div (previousPinchDist st) currentDist;
          midX = pinchMidX p1 p2;
          plotWidthCss = pinchPlotWidth e;
          span = js_sub (snd (getRange zs (zoom st))) (fst (getRange zs (zoom st)));
          centerPct = pinchCenterPct clamp zs e p1 p2 st;
          st1 = (if js_gt factor (Num 1) then do_call zs (ZoomOut centerPct factor) st
                 else if js_lt factor (Num 1) then do_call zs (ZoomIn centerPct (js_div (Num 1) factor)) st
                 else st)
      in if js_gt plotWidthCss (Num 0) \<and> isFinite (previousPinchMidX st)
         then (let dxCss = js_sub midX (previousPinchMidX st)
               in if isFinite dxCss \<and> \<not> js_eq dxCss (Num 0) \<and> isFinite span \<and> js_gt span (Num 0)
                  then (let panDelta = js_neg (js_mul (js_div dxCss plotWidthCss) span)
                        in if isFinite panDelta \<and> \<not> js_eq panDelta (Num 0)
                           then do_call zs (Pan panDelta) st1 else st1)
                  else st1)
         else st1)"

definition touchPinch ::
  "(jsnum \<Rightarrow> jsnum \<Rightarrow> jsnum \<Rightarrow> jsnum) \<Rightarrow> 'z ZoomState \<Rightarrow> touch_event \<Rightarrow> 'z inside_zoom \<Rightarrow> 'z inside_zoom" where
  "touchPinch clamp zs e st =
     (let st1 = trackMove e st
      in case activePointers st1 of
           (k1, p1) # (k2, p2) # rest \<Rightarrow>
             (let st2 = (if js_gt (previousPinchDist st1) (Num 0) \<and> js_gt (pinchDist p1 p2) (Num 0)
                         then pinchZoomPan clamp zs e p1 p2 st1 else st1)
              in st2\<lparr>previousPinchDist := pinchDist p1 p2, previousPinchMidX := pinchMidX p1 p2\<rparr>)
         | _ \<Rightarrow> st1)"

text \<open>The touch \<open>pointermove\<close> handler: one branch per pointer count, each returning.\<close>

definition touchPointerMove ::
  "(jsnum \<Rightarrow> jsnum \<Rightarrow> jsnum \<Rightarrow> jsnum) \<Rightarrow> 'z ZoomState \<Rightarrow> 'z inside_zoom \<Rightarrow> touch_event \<Rightarrow> 'z inside_zoom" where
  "touchPointerMove clamp zs st e =
     (if length (activePointers st) = 1 then touchPan zs e st
      else if length (activePointers st) = 2 then touchPinch clamp zs e st
      else st)"

text \<open>A gesture is a sequence of \<open>pointermove\<close> events, handled one after the other.\<close>

definition touchMoves ::
  "(jsnum \<Rightarrow> jsnum \<Rightarrow> jsnum \<Rightarrow> jsnum) \<Rightarrow> 'z ZoomState \<Rightarrow> 'z inside_zoom \<Rightarrow> touch_event list \<Rightarrow> 'z inside_zoom" where
  "touchMoves clamp zs st es = foldl (touchPointerMove clamp zs) st es"

section \<open>Viewport state\<close>

text \<open>
  Modelled from the spec: \<open>createZoomState.ts\<close> is not among the sources, so the viewport
  state follows section 4.1 of the specification. The range is a pair of finite percents
  with a configured minimum span (default \<open>0.5\<close>); \<open>notifications\<close> counts the change
  notifications fired.
\<close>

record ViewportState =
  vp_start :: real
  vp_end :: real
  vp_minSpan :: real
  notifications :: nat

text \<open>Modelled from the spec: the default minimum span, and the clamp into \<open>[0, 100]\<close>.\<close>

definition DEFAULT_MIN_SPAN :: real where
  "DEFAULT_MIN_SPAN = 1 / 2"

definition clampPercent :: "real \<Rightarrow> real" where
  "clampPercent v = min 100 (max 0 v)"

text \<open>
  Modelled from the spec: after clamping and reordering, a span below the minimum is
  expanded symmetrically around the requested centre, and shifted inward when the
  expansion would leave \<open>[0, 100]\<close>.
\<close>

definition enforceMinSpan :: "real \<Rightarrow> real \<times> real \<Rightarrow> real \<times> real" where
  "enforceMinSpan minSpan r =
     (if snd r - fst r < minSpan
      then (let center = (fst r + snd r) / 2;
                lo = center - minSpan / 2;
                hi = center + minSpan / 2
            in if lo < 0 then (0, minSpan)
               else if hi > 100 then (100 - minSpan, 100)
               else (lo, hi))
      else r)"

text \<open>
  Modelled from the spec: \<open>set_range\<close> rejects malformed input (\<open>NaN\<close>, \<open>Infinity\<close>) by
  leaving the state unchanged, and fires the notification unless the resulting range is
  identical to the previous one.
\<close>

definition set_range :: "jsnum \<Rightarrow> jsnum \<Rightarrow> ViewportState \<Rightarrow> ViewportState" where
  "set_range s e st =
     (case (s, e) of
        (Num a, Num b) \<Rightarrow>
          (let a' = clampPercent a; b' = clampPercent b;
               ordered = (if a' > b' then (b', a') else (a', b'));
               r = enforceMinSpan (vp_minSpan st) ordered
           in if r = (vp_start st, vp_end st) then st
              else st\<lparr>vp_start := fst r, vp_end := snd r, notifications := notifications st + 1\<rparr>)
      | _ \<Rightarrow> st)"

text \<open>Modelled from the spec: \<open>get_range\<close> returns a snapshot of the range.\<close>

definition get_range :: "ViewportState \<Rightarrow> real \<times> real" where
  "get_range st = (vp_start st, vp_end st)"

text \<open>
  Modelled from the spec: \<open>set_viewport\<close> and \<open>get_viewport\<close>, the interface exposed to
  collaborators (section 6 of the specification).
\<close>

definition set_viewport :: "jsnum \<Rightarrow> jsnum \<Rightarrow> ViewportState \<Rightarrow> ViewportState" where
  "set_viewport s e st = set_range s e st"

definition get_viewport :: "ViewportState \<Rightarrow> real \<times> real" where
  "get_viewport st = get_range st"

section \<open>Range slicer\<close>

text \<open>
  Modelled from the spec: the slicing helpers of \<open>createRenderCoordinator.ts\<close> are not
  among the sources (only a summary of them is), so the slicer follows section 4.4 of the
  specification. A series is the list of its x values; the sortedness cache only memoises
  the scan and does not change any result.
\<close>

fun isMonotonicNonDecreasing :: "real list \<Rightarrow> bool" where
  "isMonotonicNonDecreasing [] = True"
| "isMonotonicNonDecreasing [x] = True"
| "isMonotonicNonDecreasing (x # y # xs) = (x \<le> y \<and> isMonotonicNonDecreasing (y # xs))"

text \<open>Modelled from the spec: binary search for the first index with \<open>x \<ge> v\<close>.\<close>

function lowerBound :: "real list \<Rightarrow> real \<Rightarrow> nat \<Rightarrow> nat \<Rightarrow> nat" where
  "lowerBound xs v lo hi =
     (if lo < hi
      then (let mid = (lo + hi) div 2
            in if xs ! mid < v then lowerBound xs v (mid + 1) hi else lowerBound xs v lo mid)
      else lo)"
  by pat_completeness auto
termination
  by (relation "measure (\<lambda>(xs, v, lo, hi). hi - lo)") auto

text \<open>Modelled from the spec: binary search for the first index with \<open>x > v\<close>.\<close>

function upperBound :: "real list \<Rightarrow> real \<Rightarrow> nat \<Rightarrow> nat \<Rightarrow> nat" where
  "upperBound xs v lo hi =
     (if lo < hi
      then (let mid = (lo + hi) div 2
            in if xs ! mid \<le> v then upperBound xs v (mid + 1) hi else upperBound xs v lo mid)
      else lo)"
  by pat_completeness auto
termination
  by (relation "measure (\<lambda>(xs, v, lo, hi). hi - lo)") auto

datatype slice = IndexRange nat nat | IndexList "nat list"

text \<open>
  Modelled from the spec: a half-open index range when the series is sorted, an explicit
  index list from a linear scan otherwise.
\<close>

definition sliceVisibleRange :: "real list \<Rightarrow> real \<Rightarrow> real \<Rightarrow> slice" where
  "sliceVisibleRange xs lo hi =
     (if isMonotonicNonDecreasing xs
      then IndexRange (lowerBound xs lo 0 (length xs)) (upperBound xs hi 0 (length xs))
      else IndexList (filter (\<lambda>i. lo \<le> xs ! i \<and> xs ! i \<le> hi) [0..<length xs]))"

text \<open>
  Modelled from the spec: the indices a result stands for; a range whose end is not above
  its start is empty.
\<close>

fun sliceIndices :: "slice \<Rightarrow> nat list" where
  "sliceIndices (IndexRange l u) = [l..<u]"
| "sliceIndices (IndexList idxs) = idxs"

section \<open>Frame coalescer\<close>

text \<open>
  Modelled from the spec: \<open>RenderScheduler.ts\<close> is not among the sources, so the coalescer
  follows section 4.3 and the design note on coalescing: at most one wake-up is pending;
  a request while one is pending is a no-op; the wake-up clears the pending flag before it
  runs the pass, so a request made by the pass schedules a new wake-up. \<open>scheduled\<close> and
  \<open>passes\<close> count the wake-ups scheduled and the passes run.
\<close>

record Coalescer =
  running :: bool
  pending :: bool
  scheduled :: nat
  passes :: nat

definition request :: "Coalescer \<Rightarrow> Coalescer" where
  "request c =
     (if running c \<and> \<not> pending c then c\<lparr>pending := True, scheduled := scheduled c + 1\<rparr> else c)"

text \<open>
  Modelled from the spec: one display refresh tick. The pass is any function of the
  coalescer state, so it may call \<open>request\<close> any number of times.
\<close>

definition tick :: "(Coalescer \<Rightarrow> Coalescer) \<Rightarrow> Coalescer \<Rightarrow> Coalescer" where
  "tick pass c =
     (if running c \<and> pending c then pass (c\<lparr>pending := False, passes := passes c + 1\<rparr>) else c)"

text \<open>
  Modelled from the spec: a pass that calls \<open>request\<close> \<open>k\<close> times and does nothing else
  to the coalescer.
\<close>

definition requesting_pass :: "nat \<Rightarrow> Coalescer \<Rightarrow> Coalescer" where
  "requesting_pass k c = (request ^^ k) c"

section \<open>Notions used to state the properties\<close>

text \<open>The \<open>y\<close> of a point when it is finite, and its size when present and finite.\<close>

definition finiteY :: "DataPoint \<Rightarrow> real option" where
  "finiteY p = (case snd (getXY p) of Num r \<Rightarrow> Some r | _ \<Rightarrow> None)"

definition finiteValue :: "jsnum option \<Rightarrow> real option" where
  "finiteValue s = (case s of Some (Num v) \<Rightarrow> Some v | _ \<Rightarrow> None)"

text \<open>
  A point the bucket loop skips: in \<open>average\<close> mode one whose \<open>x\<close> or \<open>y\<close> is not finite,
  in \<open>max\<close>/\<open>min\<close> mode one whose \<open>y\<close> is not finite.
\<close>

definition excluded :: "BucketMode \<Rightarrow> DataPoint \<Rightarrow> bool" where
  "excluded mode p =
     (if mode = Average then \<not> (isFinite (fst (getXY p)) \<and> isFinite (snd (getXY p)))
      else \<not> isFinite (snd (getXY p)))"

text \<open>The mean of the finite values among optional sizes; \<open>None\<close> when there is none.\<close>

definition meanFinite :: "jsnum option list \<Rightarrow> jsnum option" where
  "meanFinite ss =
     (let fs = List.map_filter finiteValue ss
      in if fs = [] then None else Some (Num (sum_list fs / real (length fs))))"

text \<open>
  The series of the acceptance check: the ten tuples \<open>[i, i]\<close> for \<open>i = 0, ..., 9\<close>, the
  \<open>i\<close>-th with the optional size \<open>sz i\<close>.
\<close>

definition acceptanceSeries :: "(nat \<Rightarrow> jsnum option) \<Rightarrow> DataPoint list" where
  "acceptanceSeries sz = map (\<lambda>i. DataPointTuple (Num (real i)) (Num (real i)) (sz i)) [0..<10]"

text \<open>
  The quantities of the single-finger pan step: the horizontal movement of the tracked
  pointer, the plot width, the viewport span, and the delta \<open>-(dx / plotWidth) * span\<close>.
\<close>

definition panDx :: "'z inside_zoom \<Rightarrow> touch_event \<Rightarrow> jsnum option" where
  "panDx st e = map_option (\<lambda>prev. js_sub (clientX e) (pt_x prev)) (map_of (activePointers st) (pointerId e))"

definition panPlotWidth :: "touch_event \<Rightarrow> jsnum" where
  "panPlotWidth e = (case lastPointer e of None \<Rightarrow> Num 0 | Some lp \<Rightarrow> lp_plotWidthCss lp)"

definition panSpan :: "'z ZoomState \<Rightarrow> 'z inside_zoom \<Rightarrow> jsnum" where
  "panSpan zs st = js_sub (snd (getRange zs (zoom st))) (fst (getRange zs (zoom st)))"

definition panDelta :: "'z ZoomState \<Rightarrow> 'z inside_zoom \<Rightarrow> touch_event \<Rightarrow> jsnum" where
  "panDelta zs st e =
     (case panDx st e of
        None \<Rightarrow> NaN
      | Some dx \<Rightarrow> js_neg (js_mul (js_div dx (panPlotWidth e)) (panSpan zs st)))"

text \<open>
  The pan step is blocked when the pointer has no previous position, the movement is zero
  or not finite, the plot width is not strictly positive, or the span is zero or not
  finite.
\<close>

definition panBlocked :: "'z ZoomState \<Rightarrow> 'z inside_zoom \<Rightarrow> touch_event \<Rightarrow> bool" where
  "panBlocked zs st e =
     (case panDx st e of
        None \<Rightarrow> True
      | Some dx \<Rightarrow> (js_eq dx (Num 0) \<or> \<not> isFinite dx) \<or> \<not> js_gt (panPlotWidth e) (Num 0)
                   \<or> js_eq (panSpan zs st) (Num 0) \<or> \<not> isFinite (panSpan zs st))"

text \<open>
  The distance between the first two tracked contacts, and the distances after each
  event of a sequence of moves.
\<close>

fun currentPinchDist :: "pointers \<Rightarrow> jsnum" where
  "currentPinchDist ((k1, p1) # (k2, p2) # rest) = pinchDist p1 p2"
| "currentPinchDist _ = NaN"

fun pinchDistances :: "pointers \<Rightarrow> touch_event list \<Rightarrow> jsnum list" where
  "pinchDistances ap [] = []"
| "pinchDistances ap (e # es) =
     currentPinchDist (map_set (pointerId e) \<lparr>pt_x = clientX e, pt_y = clientY e\<rparr> ap)
     # pinchDistances (map_set (pointerId e) \<lparr>pt_x = clientX e, pt_y = clientY e\<rparr> ap) es"

fun strictlyIncreasing :: "jsnum list \<Rightarrow> bool" where
  "strictlyIncreasing (a # b # r) = (js_lt a b \<and> strictlyIncreasing (b # r))"
| "strictlyIncreasing _ = True"

fun strictlyDecreasing :: "jsnum list \<Rightarrow> bool" where
  "strictlyDecreasing (a # b # r) = (js_lt b a \<and> strictlyDecreasing (b # r))"
| "strictlyDecreasing _ = True"

text \<open>The kinds of call in a log.\<close>

fun isZoomIn :: "zoom_call \<Rightarrow> bool" where
  "isZoomIn (ZoomIn c f) = True"
| "isZoomIn _ = False"

fun isZoomOut :: "zoom_call \<Rightarrow> bool" where
  "isZoomOut (ZoomOut c f) = True"
| "isZoomOut _ = False"

fun isPan :: "zoom_call \<Rightarrow> bool" where
  "isPan (Pan d) = True"
| "isPan _ = False"

text \<open>
  The fixtures of the gesture tests: a zoom state whose range stays \<open>[20, 80]\<close> while the
  calls made on it are logged, the event-manager payload, a touch event at a position, a
  clamp for the concrete runs, and two contacts on one horizontal line with the pinch
  reference as it is after a contact is added (\<open>previousPinchDist = 0\<close>,
  \<open>previousPinchMidX = NaN\<close>).
\<close>

definition mockZoomState :: "unit ZoomState" where
  "mockZoomState = \<lparr>getRange = (\<lambda>z. (Num 20, Num 80)), zoomIn = (\<lambda>c f z. z),
                     zoomOut = (\<lambda>c f z. z), pan = (\<lambda>d z. z)\<rparr>"

definition testPayload :: payload where
  "testPayload = \<lparr>lp_x = Num 400, lp_gridX = Some (Num 340), lp_plotWidthCss = Num 720\<rparr>"

definition touchAt :: "int \<Rightarrow> real \<Rightarrow> real \<Rightarrow> touch_event" where
  "touchAt k x y = \<lparr>pointerId = k, clientX = Num x, clientY = Num y,
                    lastPointer = Some testPayload, rect_left = Num 0, rect_width = Num 800\<rparr>"

definition clampNum :: "jsnum \<Rightarrow> jsnum \<Rightarrow> jsnum \<Rightarrow> jsnum" where
  "clampNum v lo hi = (if js_lt v lo then lo else if js_gt v hi then hi else v)"

definition twoContacts :: "real \<Rightarrow> real \<Rightarrow> unit inside_zoom" where
  "twoContacts x1 x2 =
     \<lparr>activePointers = [(1, \<lparr>pt_x = Num x1, pt_y = Num 300\<rparr>), (2, \<lparr>pt_x = Num x2, pt_y = Num 300\<rparr>)],
      previousPinchDist = Num 0, previousPinchMidX = NaN, zoom = (), calls = []\<rparr>"

definition oneContact :: "real \<Rightarrow> unit inside_zoom" where
  "oneContact x1 =
     \<lparr>activePointers = [(1, \<lparr>pt_x = Num x1, pt_y = Num 300\<rparr>)],
      previousPinchDist = Num 0, previousPinchMidX = NaN, zoom = (), calls = []\<rparr>"

section \<open>The bucket sampler: lemmas\<close>

lemma extreme_loop_foldl: "extreme_loop mode st ps = foldl (extreme_step mode) st ps"
  by (induction ps arbitrary: st) auto

lemma binexp_numeral:
  "binexp (numeral k) x =
     (if 2 \<le> x then binexp (pred_numeral k) (x / 2) + 1
      else if x < 1 then binexp (pred_numeral k) (x * 2) - 1 else 0)"
  by (simp add: numeral_eq_Suc)

lemmas double_eval = round_double_def binexp_numeral ulp_def roundHalfEven_def

text \<open>Rounding keeps the sign, so the floors of the bucket partition are not negative.\<close>

lemma roundHalfEven_nonneg: "0 \<le> q \<Longrightarrow> 0 \<le> roundHalfEven q"
  by (auto simp: roundHalfEven_def Let_def)

lemma ulp_pos: "0 < ulp e"
  by (simp add: ulp_def)

lemma round_double_nonneg:
  assumes "0 \<le> x"
  shows "0 \<le> round_double x"
proof (cases "x = 0")
  case True
  then show ?thesis by (simp add: round_double_def)
next
  case False
  then have x: "0 < x" using assms by simp
  let ?u = "ulp (binexp 2200 \<bar>x\<bar>)"
  have "0 \<le> \<bar>x\<bar> / ?u" using ulp_pos[of "binexp 2200 \<bar>x\<bar>"] by simp
  then have "0 \<le> roundHalfEven (\<bar>x\<bar> / ?u)" by (rule roundHalfEven_nonneg)
  then have "0 \<le> of_int (roundHalfEven (\<bar>x\<bar> / ?u)) * ?u"
    using ulp_pos[of "binexp 2200 \<bar>x\<bar>"] by simp
  then show ?thesis using x False by (simp add: round_double_def)
qed

lemma bucketSize_nonneg: "3 \<le> t \<Longrightarrow> t < int n \<Longrightarrow> 0 \<le> bucketSize n t"
  unfolding bucketSize_def by (intro round_double_nonneg) simp

lemma bucket_product_nonneg:
  "3 \<le> t \<Longrightarrow> t < int n \<Longrightarrow> 0 \<le> round_double (bucketSize n t * real b)"
  by (intro round_double_nonneg mult_nonneg_nonneg bucketSize_nonneg) simp_all

text \<open>
  The double quotient is not the exact one: with 17 points and a threshold of 13 the
  product \<open>bucketSize * 11\<close> is just below 15, and with 32 points and a threshold of 24 the
  product \<open>bucketSize * 11\<close> is just below 15 as well, so these buckets are not the ones
  exact arithmetic would give.
\<close>

lemma bucketRange_17_13: "bucketRange 17 13 10 = (14, 15)"
  by (simp add: bucketRange_def bucketSize_def double_eval)

lemma bucketRange_32_24: "bucketRange 32 24 11 = (15, 17)"
  by (simp add: bucketRange_def bucketSize_def double_eval)

text \<open>
  Whatever the floors are, the range of a bucket is a non-empty range of interior
  indices: this is what the adjustment \<open>if (rangeStart >= rangeEndExclusive)\<close> ensures.
\<close>

lemma bucketRange_ok:
  assumes "3 \<le> t" "t < int n"
  shows "1 \<le> fst (bucketRange n t b)"
    and "fst (bucketRange n t b) < snd (bucketRange n t b)"
    and "snd (bucketRange n t b) \<le> n - 1"
proof -
  define a where "a = nat \<lfloor>round_double (bucketSize n t * real b)\<rfloor> + 1"
  define c where "c = nat \<lfloor>round_double (bucketSize n t * real (b + 1))\<rfloor> + 1"
  have n: "4 \<le> n" using assms by linarith
  have a1: "1 \<le> a" by (simp add: a_def)
  have eq: "bucketRange n t b =
      (if a \<ge> min c (n - 1) then (min a (n - 1 - 1), min (min a (n - 1 - 1) + 1) (n - 1))
       else (a, min c (n - 1)))"
    unfolding bucketRange_def Let_def a_def c_def by (rule refl)
  show "1 \<le> fst (bucketRange n t b)" unfolding eq using a1 n by auto
  show "fst (bucketRange n t b) < snd (bucketRange n t b)" unfolding eq using a1 n by auto
  show "snd (bucketRange n t b) \<le> n - 1" unfolding eq by auto
qed


lemma extreme_step_Max:
  "extreme_step Max (bestY, chosen) p =
     (case finiteY p of None \<Rightarrow> (bestY, chosen)
      | Some r \<Rightarrow> if js_gt (Num r) bestY then (Num r, Some p) else (bestY, chosen))"
  by (cases "snd (getXY p)") (auto simp: finiteY_def Let_def)

lemma extreme_step_Min:
  "extreme_step Min (bestY, chosen) p =
     (case finiteY p of None \<Rightarrow> (bestY, chosen)
      | Some r \<Rightarrow> if js_lt (Num r) bestY then (Num r, Some p) else (bestY, chosen))"
  by (cases "snd (getXY p)") (auto simp: finiteY_def Let_def)

declare extreme_step.simps [simp del]

lemma extreme_loop_Max_inv:
  "(\<forall>p \<in> set ps. finiteY p = None) \<and> extreme_loop Max (NegInf, None) ps = (NegInf, None)
   \<or> (\<exists>i r. i < length ps \<and> finiteY (ps ! i) = Some r
         \<and> extreme_loop Max (NegInf, None) ps = (Num r, Some (ps ! i))
         \<and> (\<forall>j r'. j < length ps \<longrightarrow> finiteY (ps ! j) = Some r' \<longrightarrow> r' \<le> r)
         \<and> (\<forall>j r'. j < i \<longrightarrow> finiteY (ps ! j) = Some r' \<longrightarrow> r' < r))"
proof (induction ps rule: rev_induct)
  case Nil
  show ?case by simp
next
  case (snoc p ps)
  have app: "extreme_loop Max (NegInf, None) (ps @ [p])
             = extreme_step Max (extreme_loop Max (NegInf, None) ps) p"
    by (simp add: extreme_loop_foldl)
  from snoc.IH show ?case
  proof (elim disjE conjE exE)
    assume none: "\<forall>q \<in> set ps. finiteY q = None"
      and st: "extreme_loop Max (NegInf, None) ps = (NegInf, None)"
    show ?thesis
    proof (cases "finiteY p")
      case None
      then show ?thesis using none st app by (simp add: extreme_step_Max)
    next
      case (Some r)
      have "extreme_loop Max (NegInf, None) (ps @ [p]) = (Num r, Some p)"
        using Some st app by (simp add: extreme_step_Max js_gt_def)
      moreover have "\<forall>j r'. j < length ps \<longrightarrow> finiteY (ps ! j) \<noteq> Some r'"
        using none by auto
      ultimately have "length ps < length (ps @ [p]) \<and> finiteY ((ps @ [p]) ! length ps) = Some r
         \<and> extreme_loop Max (NegInf, None) (ps @ [p]) = (Num r, Some ((ps @ [p]) ! length ps))
         \<and> (\<forall>j r'. j < length (ps @ [p]) \<longrightarrow> finiteY ((ps @ [p]) ! j) = Some r' \<longrightarrow> r' \<le> r)
         \<and> (\<forall>j r'. j < length ps \<longrightarrow> finiteY ((ps @ [p]) ! j) = Some r' \<longrightarrow> r' < r)"
        using Some by (auto simp: nth_append less_Suc_eq)
      then show ?thesis by blast
    qed
  next
    fix i r
    assume i: "i < length ps" and fi: "finiteY (ps ! i) = Some r"
      and st: "extreme_loop Max (NegInf, None) ps = (Num r, Some (ps ! i))"
      and mx: "\<forall>j r'. j < length ps \<longrightarrow> finiteY (ps ! j) = Some r' \<longrightarrow> r' \<le> r"
      and fst: "\<forall>j r'. j < i \<longrightarrow> finiteY (ps ! j) = Some r' \<longrightarrow> r' < r"
    show ?thesis
    proof (cases "finiteY p")
      case None
      have "i < length (ps @ [p]) \<and> finiteY ((ps @ [p]) ! i) = Some r
         \<and> extreme_loop Max (NegInf, None) (ps @ [p]) = (Num r, Some ((ps @ [p]) ! i))
         \<and> (\<forall>j r'. j < length (ps @ [p]) \<longrightarrow> finiteY ((ps @ [p]) ! j) = Some r' \<longrightarrow> r' \<le> r)
         \<and> (\<forall>j r'. j < i \<longrightarrow> finiteY ((ps @ [p]) ! j) = Some r' \<longrightarrow> r' < r)"
        using None i fi st mx fst app by (auto simp: nth_append less_Suc_eq extreme_step_Max)
      then show ?thesis by blast
    next
      case (Some s)
      show ?thesis
      proof (cases "r < s")
        case True
        have "length ps < length (ps @ [p]) \<and> finiteY ((ps @ [p]) ! length ps) = Some s
         \<and> extreme_loop Max (NegInf, None) (ps @ [p]) = (Num s, Some ((ps @ [p]) ! length ps))
         \<and> (\<forall>j r'. j < length (ps @ [p]) \<longrightarrow> finiteY ((ps @ [p]) ! j) = Some r' \<longrightarrow> r' \<le> s)
         \<and> (\<forall>j r'. j < length ps \<longrightarrow> finiteY ((ps @ [p]) ! j) = Some r' \<longrightarrow> r' < s)"
          using Some True st mx app
          by (auto simp: nth_append less_Suc_eq extreme_step_Max js_gt_def dest: mx[rule_format])
        then show ?thesis by blast
      next
        case False
        have "i < length (ps @ [p]) \<and> finiteY ((ps @ [p]) ! i) = Some r
         \<and> extreme_loop Max (NegInf, None) (ps @ [p]) = (Num r, Some ((ps @ [p]) ! i))
         \<and> (\<forall>j r'. j < length (ps @ [p]) \<longrightarrow> finiteY ((ps @ [p]) ! j) = Some r' \<longrightarrow> r' \<le> r)
         \<and> (\<forall>j r'. j < i \<longrightarrow> finiteY ((ps @ [p]) ! j) = Some r' \<longrightarrow> r' < r)"
          using Some False i fi st mx fst app
          by (auto simp: nth_append less_Suc_eq extreme_step_Max js_gt_def)
        then show ?thesis by blast
      qed
    qed
  qed
qed

lemma extreme_loop_Min_inv:
  "(\<forall>p \<in> set ps. finiteY p = None) \<and> extreme_loop Min (PosInf, None) ps = (PosInf, None)
   \<or> (\<exists>i r. i < length ps \<and> finiteY (ps ! i) = Some r
         \<and> extreme_loop Min (PosInf, None) ps = (Num r, Some (ps ! i))
         \<and> (\<forall>j r'. j < length ps \<longrightarrow> finiteY (ps ! j) = Some r' \<longrightarrow> r \<le> r')
         \<and> (\<forall>j r'. j < i \<longrightarrow> finiteY (ps ! j) = Some r' \<longrightarrow> r < r'))"
proof (induction ps rule: rev_induct)
  case Nil
  show ?case by simp
next
  case (snoc p ps)
  have app: "extreme_loop Min (PosInf, None) (ps @ [p])
             = extreme_step Min (extreme_loop Min (PosInf, None) ps) p"
    by (simp add: extreme_loop_foldl)
  from snoc.IH show ?case
  proof (elim disjE conjE exE)
    assume none: "\<forall>q \<in> set ps. finiteY q = None"
      and st: "extreme_loop Min (PosInf, None) ps = (PosInf, None)"
    show ?thesis
    proof (cases "finiteY p")
      case None
      then show ?thesis using none st app by (simp add: extreme_step_Min)
    next
      case (Some r)
      have "extreme_loop Min (PosInf, None) (ps @ [p]) = (Num r, Some p)"
        using Some st app by (simp add: extreme_step_Min js_gt_def)
      moreover have "\<forall>j r'. j < length ps \<longrightarrow> finiteY (ps ! j) \<noteq> Some r'"
        using none by auto
      ultimately have "length ps < length (ps @ [p]) \<and> finiteY ((ps @ [p]) ! length ps) = Some r
         \<and> extreme_loop Min (PosInf, None) (ps @ [p]) = (Num r, Some ((ps @ [p]) ! length ps))
         \<and> (\<forall>j r'. j < length (ps @ [p]) \<longrightarrow> finiteY ((ps @ [p]) ! j) = Some r' \<longrightarrow> r \<le> r')
         \<and> (\<forall>j r'. j < length ps \<longrightarrow> finiteY ((ps @ [p]) ! j) = Some r' \<longrightarrow> r < r')"
        using Some by (auto simp: nth_append less_Suc_eq)
      then show ?thesis by blast
    qed
  next
    fix i r
    assume i: "i < length ps" and fi: "finiteY (ps ! i) = Some r"
      and st: "extreme_loop Min (PosInf, None) ps = (Num r, Some (ps ! i))"
      and mx: "\<forall>j r'. j < length ps \<longrightarrow> finiteY (ps ! j) = Some r' \<longrightarrow> r \<le> r'"
      and fst: "\<forall>j r'. j < i \<longrightarrow> finiteY (ps ! j) = Some r' \<longrightarrow> r < r'"
    show ?thesis
    proof (cases "finiteY p")
      case None
      have "i < length (ps @ [p]) \<and> finiteY ((ps @ [p]) ! i) = Some r
         \<and> extreme_loop Min (PosInf, None) (ps @ [p]) = (Num r, Some ((ps @ [p]) ! i))
         \<and> (\<forall>j r'. j < length (ps @ [p]) \<longrightarrow> finiteY ((ps @ [p]) ! j) = Some r' \<longrightarrow> r \<le> r')
         \<and> (\<forall>j r'. j < i \<longrightarrow> finiteY ((ps @ [p]) ! j) = Some r' \<longrightarrow> r < r')"
        using None i fi st mx fst app by (auto simp: nth_append less_Suc_eq extreme_step_Min)
      then show ?thesis by blast
    next
      case (Some s)
      show ?thesis
      proof (cases "s < r")
        case True
        have "length ps < length (ps @ [p]) \<and> finiteY ((ps @ [p]) ! length ps) = Some s
         \<and> extreme_loop Min (PosInf, None) (ps @ [p]) = (Num s, Some ((ps @ [p]) ! length ps))
         \<and> (\<forall>j r'. j < length (ps @ [p]) \<longrightarrow> finiteY ((ps @ [p]) ! j) = Some r' \<longrightarrow> s \<le> r')
         \<and> (\<forall>j r'. j < length ps \<longrightarrow> finiteY ((ps @ [p]) ! j) = Some r' \<longrightarrow> s < r')"
          using Some True st mx app
          by (auto simp: nth_append less_Suc_eq extreme_step_Min js_gt_def dest: mx[rule_format])
        then show ?thesis by blast
      next
        case False
        have "i < length (ps @ [p]) \<and> finiteY ((ps @ [p]) ! i) = Some r
         \<and> extreme_loop Min (PosInf, None) (ps @ [p]) = (Num r, Some ((ps @ [p]) ! i))
         \<and> (\<forall>j r'. j < length (ps @ [p]) \<longrightarrow> finiteY ((ps @ [p]) ! j) = Some r' \<longrightarrow> r \<le> r')
         \<and> (\<forall>j r'. j < i \<longrightarrow> finiteY ((ps @ [p]) ! j) = Some r' \<longrightarrow> r < r')"
          using Some False i fi st mx fst app
          by (auto simp: nth_append less_Suc_eq extreme_step_Min js_gt_def)
        then show ?thesis by blast
      qed
    qed
  qed
qed

lemma sampleByBuckets_main:
  assumes "3 \<le> clampTargetPoints tp" "clampTargetPoints tp < int (length data)"
  shows "sampleByBuckets data tp mode =
           data ! 0 # map (bucketOut data (clampTargetPoints tp) mode) [0..<nat (clampTargetPoints tp - 2)]
           @ [data ! (length data - 1)]"
    and "length (sampleByBuckets data tp mode) = nat (clampTargetPoints tp)"
    and "int b < clampTargetPoints tp - 2 \<Longrightarrow>
           sampleByBuckets data tp mode ! (b + 1) = bucketOut data (clampTargetPoints tp) mode b"
proof -
  show eq: "sampleByBuckets data tp mode =
           data ! 0 # map (bucketOut data (clampTargetPoints tp) mode) [0..<nat (clampTargetPoints tp - 2)]
           @ [data ! (length data - 1)]"
    using assms by (auto simp add: sampleByBuckets_def Let_def)
  show "length (sampleByBuckets data tp mode) = nat (clampTargetPoints tp)"
    unfolding eq using assms by simp
  assume "int b < clampTargetPoints tp - 2"
  then have "b < nat (clampTargetPoints tp - 2)" by linarith
  then show "sampleByBuckets data tp mode ! (b + 1) = bucketOut data (clampTargetPoints tp) mode b"
    unfolding eq by (simp add: nth_append)
qed

lemma bucketPoints_nth:
  "k < snd r - fst r \<Longrightarrow> bucketPoints data r ! k = data ! (fst r + k)"
  by (simp add: bucketPoints_def)

lemma length_bucketPoints: "length (bucketPoints data r) = snd r - fst r"
  by (simp add: bucketPoints_def)

lemma avg_step_excluded: "excluded Average p \<Longrightarrow> avg_step a p = a"
  by (cases "fst (getXY p)"; cases "snd (getXY p)"; cases "getXY p") (auto simp: excluded_def)

lemma avg_loop_excluded: "(\<And>p. p \<in> set ps \<Longrightarrow> excluded Average p) \<Longrightarrow> avg_loop a ps = a"
proof (induction ps arbitrary: a)
  case Nil
  show ?case by simp
next
  case (Cons p ps)
  have "avg_step a p = a" using Cons.prems by (intro avg_step_excluded) simp
  then show ?case using Cons by simp
qed

lemma extreme_step_excluded:
  "mode \<noteq> Average \<Longrightarrow> excluded mode p \<Longrightarrow> extreme_step mode st p = st"
  by (cases st) (simp add: excluded_def extreme_step.simps)

lemma extreme_loop_excluded:
  "mode \<noteq> Average \<Longrightarrow> (\<And>p. p \<in> set ps \<Longrightarrow> excluded mode p) \<Longrightarrow> extreme_loop mode st ps = st"
  by (induction ps arbitrary: st) (simp_all add: extreme_step_excluded)

lemma bucketChosen_excluded:
  assumes "\<And>p. p \<in> set ps \<Longrightarrow> excluded mode p"
  shows "bucketChosen mode ps = None"
proof (cases "mode = Average")
  case True
  then have "avg_loop avg_init ps = avg_init" using assms by (intro avg_loop_excluded) simp
  then show ?thesis using True by (simp add: bucketChosen_def avg_chosen_def avg_init_def)
next
  case False
  then show ?thesis using assms by (simp add: bucketChosen_def extreme_loop_excluded)
qed


section \<open>The bucket sampler: properties\<close>

text \<open>
  Claim C8. In \<open>max\<close> (respectively \<open>min\<close>) mode, the output point of an interior
  bucket that holds at least one point with a finite \<open>y\<close> is a source point of that
  bucket whose finite \<open>y\<close> is the largest (respectively smallest) among the finite ones
  of the bucket, and every earlier point of the bucket with a finite \<open>y\<close> is strictly
  worse: ties go to the earliest index. Points with a non-finite \<open>y\<close> take no part, and
  the pass still returns its \<open>threshold\<close> points. The bucket is the index range
  \<open>[lo, hi)\<close> that the loop computes, with its quotient and products rounded to doubles
  before they are floored.
\<close>

theorem extreme_bucket_selects_first_best:
  assumes "mode = Max \<or> mode = Min"
    and "3 \<le> clampTargetPoints tp" and "clampTargetPoints tp < int (length data)"
    and "int b < clampTargetPoints tp - 2"
    and "bucketRange (length data) (clampTargetPoints tp) b = (lo, hi)"
    and "lo \<le> k \<and> k < hi \<and> finiteY (data ! k) = Some v"
  shows "length (sampleByBuckets data tp mode) = nat (clampTargetPoints tp)
       \<and> (\<exists>i r. lo \<le> i \<and> i < hi \<and> hi < length data
             \<and> sampleByBuckets data tp mode ! (b + 1) = data ! i
             \<and> finiteY (data ! i) = Some r
             \<and> (\<forall>j r'. lo \<le> j \<and> j < hi \<and> finiteY (data ! j) = Some r'
                   \<longrightarrow> (if mode = Max then r' \<le> r else r \<le> r'))
             \<and> (\<forall>j r'. lo \<le> j \<and> j < i \<and> finiteY (data ! j) = Some r'
                   \<longrightarrow> (if mode = Max then r' < r else r < r')))"
proof -
  let ?t = "clampTargetPoints tp"
  let ?ps = "bucketPoints data (lo, hi)"
  have rng: "lo < hi" "hi \<le> length data - 1"
    using bucketRange_ok(2,3)[OF assms(2,3), of b] assms(5) by simp_all
  have hi: "hi < length data" using rng assms(2,3) by linarith
  have len: "length ?ps = hi - lo" by (simp add: length_bucketPoints)
  have nth: "\<And>m. m < hi - lo \<Longrightarrow> ?ps ! m = data ! (lo + m)"
    by (simp add: bucketPoints_nth)
  have kin: "k - lo < hi - lo" "?ps ! (k - lo) = data ! k" using assms(6) nth[of "k - lo"] by auto
  then have some: "finiteY (?ps ! (k - lo)) = Some v" using assms(6) by simp
  have notnone: "\<not> (\<forall>p \<in> set ?ps. finiteY p = None)"
    using some kin(1) len by (metis nth_mem option.distinct(1))
  have out: "sampleByBuckets data tp mode ! (b + 1) = bucketOut data ?t mode b"
    using sampleByBuckets_main(3)[OF assms(2,3,4)] .
  have bo: "bucketOut data ?t mode b =
              (case bucketChosen mode ?ps of Some p \<Rightarrow> p | None \<Rightarrow> data ! lo)"
    using assms(5) by (simp add: bucketOut_def Let_def split: option.splits)
  have sel: "\<exists>i r. i < length ?ps \<and> finiteY (?ps ! i) = Some r
         \<and> bucketChosen mode ?ps = Some (?ps ! i)
         \<and> (\<forall>j r'. j < length ?ps \<longrightarrow> finiteY (?ps ! j) = Some r' \<longrightarrow> (if mode = Max then r' \<le> r else r \<le> r'))
         \<and> (\<forall>j r'. j < i \<longrightarrow> finiteY (?ps ! j) = Some r' \<longrightarrow> (if mode = Max then r' < r else r < r'))"
  proof (cases "mode = Max")
    case True
    from extreme_loop_Max_inv[of ?ps] notnone
    obtain i r where "i < length ?ps" "finiteY (?ps ! i) = Some r"
         "extreme_loop Max (NegInf, None) ?ps = (Num r, Some (?ps ! i))"
         "\<forall>j r'. j < length ?ps \<longrightarrow> finiteY (?ps ! j) = Some r' \<longrightarrow> r' \<le> r"
         "\<forall>j r'. j < i \<longrightarrow> finiteY (?ps ! j) = Some r' \<longrightarrow> r' < r"
      by blast
    then show ?thesis using True by (intro exI[of _ i] exI[of _ r]) (simp add: bucketChosen_def)
  next
    case False
    then have m: "mode = Min" using assms(1) by simp
    from extreme_loop_Min_inv[of ?ps] notnone
    obtain i r where "i < length ?ps" "finiteY (?ps ! i) = Some r"
         "extreme_loop Min (PosInf, None) ?ps = (Num r, Some (?ps ! i))"
         "\<forall>j r'. j < length ?ps \<longrightarrow> finiteY (?ps ! j) = Some r' \<longrightarrow> r \<le> r'"
         "\<forall>j r'. j < i \<longrightarrow> finiteY (?ps ! j) = Some r' \<longrightarrow> r < r'"
      by blast
    then show ?thesis using m by (intro exI[of _ i] exI[of _ r]) (simp add: bucketChosen_def)
  qed
  then obtain i r where i: "i < hi - lo" and fi: "finiteY (?ps ! i) = Some r"
    and ch: "bucketChosen mode ?ps = Some (?ps ! i)"
    and best: "\<And>j r'. j < hi - lo \<Longrightarrow> finiteY (?ps ! j) = Some r' \<Longrightarrow> (if mode = Max then r' \<le> r else r \<le> r')"
    and first: "\<And>j r'. j < i \<Longrightarrow> finiteY (?ps ! j) = Some r' \<Longrightarrow> (if mode = Max then r' < r else r < r')"
    unfolding len by blast
  have pi: "?ps ! i = data ! (lo + i)" using nth i by simp
  have A: "sampleByBuckets data tp mode ! (b + 1) = data ! (lo + i)"
    using out bo ch pi by simp
  have B: "finiteY (data ! (lo + i)) = Some r" using fi pi by simp
  have C: "\<forall>j r'. lo \<le> j \<and> j < hi \<and> finiteY (data ! j) = Some r'
                   \<longrightarrow> (if mode = Max then r' \<le> r else r \<le> r')"
  proof (intro allI impI)
    fix j r' assume h: "lo \<le> j \<and> j < hi \<and> finiteY (data ! j) = Some r'"
    then have "j - lo < hi - lo" "?ps ! (j - lo) = data ! j" using nth[of "j - lo"] by auto
    then show "if mode = Max then r' \<le> r else r \<le> r'" using best[of "j - lo" r'] h by simp
  qed
  have D: "\<forall>j r'. lo \<le> j \<and> j < lo + i \<and> finiteY (data ! j) = Some r'
                   \<longrightarrow> (if mode = Max then r' < r else r < r')"
  proof (intro allI impI)
    fix j r' assume h: "lo \<le> j \<and> j < lo + i \<and> finiteY (data ! j) = Some r'"
    then have "j - lo < i" "?ps ! (j - lo) = data ! j" using nth[of "j - lo"] i by auto
    then show "if mode = Max then r' < r else r < r'" using first[of "j - lo" r'] h by simp
  qed
  have "lo \<le> lo + i \<and> lo + i < hi \<and> hi < length data
             \<and> sampleByBuckets data tp mode ! (b + 1) = data ! (lo + i)
             \<and> finiteY (data ! (lo + i)) = Some r
             \<and> (\<forall>j r'. lo \<le> j \<and> j < hi \<and> finiteY (data ! j) = Some r'
                   \<longrightarrow> (if mode = Max then r' \<le> r else r \<le> r'))
             \<and> (\<forall>j r'. lo \<le> j \<and> j < lo + i \<and> finiteY (data ! j) = Some r'
                   \<longrightarrow> (if mode = Max then r' < r else r < r'))"
    using i hi A B C D by simp
  then have "\<exists>i r. lo \<le> i \<and> i < hi \<and> hi < length data
             \<and> sampleByBuckets data tp mode ! (b + 1) = data ! i
             \<and> finiteY (data ! i) = Some r
             \<and> (\<forall>j r'. lo \<le> j \<and> j < hi \<and> finiteY (data ! j) = Some r'
                   \<longrightarrow> (if mode = Max then r' \<le> r else r \<le> r'))
             \<and> (\<forall>j r'. lo \<le> j \<and> j < i \<and> finiteY (data ! j) = Some r'
                   \<longrightarrow> (if mode = Max then r' < r else r < r'))"
    by blast
  then show ?thesis using sampleByBuckets_main(2)[OF assms(2,3)] by simp
qed

theorem extreme_bucket_selects_first_best_witness:
  "sampleByBuckets
     [DataPointTuple (Num 0) (Num 0) None, DataPointTuple (Num 1) (Num 5) None,
      DataPointTuple (Num 2) PosInf None, DataPointTuple (Num 3) (Num 5) None,
      DataPointTuple (Num 4) (Num 0) None] (Num 3) Max ! 1 = DataPointTuple (Num 1) (Num 5) None
   \<and> sampleByBuckets (map (\<lambda>i. DataPointTuple (Num (real i)) (Num (real i)) None) [0..<17])
         (Num 13) Max ! 11 = DataPointTuple (Num 14) (Num 14) None"
proof -
  have small: "sampleByBuckets
     [DataPointTuple (Num 0) (Num 0) None, DataPointTuple (Num 1) (Num 5) None,
      DataPointTuple (Num 2) PosInf None, DataPointTuple (Num 3) (Num 5) None,
      DataPointTuple (Num 4) (Num 0) None] (Num 3) Max ! 1 = DataPointTuple (Num 1) (Num 5) None"
  proof -
    let ?data = "[DataPointTuple (Num 0) (Num 0) None, DataPointTuple (Num 1) (Num 5) None,
        DataPointTuple (Num 2) PosInf None, DataPointTuple (Num 3) (Num 5) None,
        DataPointTuple (Num 4) (Num 0) None]"
    have r: "bucketRange (length ?data) (clampTargetPoints (Num 3)) 0 = (1, 4)"
      by (simp add: bucketRange_def bucketSize_def double_eval)
    have k: "(1::nat) \<le> 1 \<and> (1::nat) < 4 \<and> finiteY (?data ! 1) = Some 5"
      by (simp add: finiteY_def)
    have m: "Max = Max \<or> Max = Min" by simp
    from extreme_bucket_selects_first_best[of Max "Num 3" ?data 0 1 4 1 5, OF m _ _ _ r k]
    obtain i r where i: "1 \<le> i" "i < 4"
      and out: "sampleByBuckets ?data (Num 3) Max ! 1 = ?data ! i"
      and fi: "finiteY (?data ! i) = Some r"
      and best: "\<forall>j r'. 1 \<le> j \<and> j < 4 \<and> finiteY (?data ! j) = Some r' \<longrightarrow> r' \<le> r"
      and first: "\<forall>j r'. 1 \<le> j \<and> j < i \<and> finiteY (?data ! j) = Some r' \<longrightarrow> r' < r"
      by auto
    from i have "i = 1 \<or> i = 2 \<or> i = 3" by arith
    then have "i = 1"
    proof (elim disjE)
      assume "i = 2"
      then show ?thesis using fi by (simp add: finiteY_def)
    next
      assume i3: "i = 3"
      then have "r = 5" using fi by (simp add: finiteY_def)
      moreover have "finiteY (?data ! 1) = Some 5" by (simp add: finiteY_def)
      ultimately show ?thesis using first i3 by force
    qed simp
    then show ?thesis using out by simp
  qed
  have large: "sampleByBuckets (map (\<lambda>i. DataPointTuple (Num (real i)) (Num (real i)) None) [0..<17])
         (Num 13) Max ! 11 = DataPointTuple (Num 14) (Num 14) None"
  proof -
    let ?data = "map (\<lambda>i. DataPointTuple (Num (real i)) (Num (real i)) None) [0..<17]"
    have r: "bucketRange (length ?data) (clampTargetPoints (Num 13)) 10 = (14, 15)"
      by (simp add: bucketRange_17_13)
    have k: "(14::nat) \<le> 14 \<and> (14::nat) < 15 \<and> finiteY (?data ! 14) = Some 14"
      by (simp add: finiteY_def)
    have m: "Max = Max \<or> Max = Min" by simp
    from extreme_bucket_selects_first_best[of Max "Num 13" ?data 10 14 15 14 14, OF m _ _ _ r k]
    obtain i where i: "14 \<le> i" "i < 15"
      and out: "sampleByBuckets ?data (Num 13) Max ! (10 + 1) = ?data ! i"
      by auto
    from i have "i = 14" by arith
    then show ?thesis using out by simp
  qed
  show ?thesis using small large by simp
qed

text \<open>
  Claim C9. In the bucket loop (\<open>3 \<le> threshold < n\<close>), when every point of an interior
  bucket is skipped (in \<open>average\<close> mode each has a non-finite \<open>x\<close> or \<open>y\<close>, in
  \<open>max\<close>/\<open>min\<close> mode each has a non-finite \<open>y\<close>), the output point of that bucket is
  the source point at the bucket's start index, unchanged; the start index is a valid
  index, and the output has exactly \<open>threshold\<close> points. The bucket is the index range
  \<open>[lo, hi)\<close> that the loop computes, with its quotient and products rounded to doubles
  before they are floored.
\<close>

theorem bucket_all_excluded_keeps_start_point:
  assumes "3 \<le> clampTargetPoints tp" and "clampTargetPoints tp < int (length data)"
    and "int b < clampTargetPoints tp - 2"
    and "bucketRange (length data) (clampTargetPoints tp) b = (lo, hi)"
    and "\<forall>j. lo \<le> j \<and> j < hi \<longrightarrow> excluded mode (data ! j)"
  shows "lo < hi \<and> hi < length data
         \<and> sampleByBuckets data tp mode ! (b + 1) = data ! lo
         \<and> length (sampleByBuckets data tp mode) = nat (clampTargetPoints tp)"
proof -
  let ?t = "clampTargetPoints tp"
  have rng: "lo < hi" "hi \<le> length data - 1"
    using bucketRange_ok(2,3)[OF assms(1,2), of b] assms(4) by simp_all
  have hi: "hi < length data" using rng assms(1,2) by linarith
  have "\<And>p. p \<in> set (bucketPoints data (lo, hi)) \<Longrightarrow> excluded mode p"
    using assms(5) by (auto simp: bucketPoints_def)
  then have "bucketChosen mode (bucketPoints data (lo, hi)) = None"
    by (rule bucketChosen_excluded)
  then have "bucketOut data ?t mode b = data ! lo"
    using assms(4) by (simp add: bucketOut_def)
  then have "sampleByBuckets data tp mode ! (b + 1) = data ! lo"
    using sampleByBuckets_main(3)[OF assms(1,2,3)] by simp
  then show ?thesis
    using rng hi sampleByBuckets_main(2)[OF assms(1,2)] by simp
qed

theorem bucket_all_excluded_keeps_start_point_witness:
  "sampleByBuckets
     [DataPointTuple (Num 0) (Num 0) None, DataPointTuple NaN (Num 1) None,
      DataPointObject (Num 2) NaN None, DataPointTuple PosInf (Num 3) (Some (Num 7)),
      DataPointTuple (Num 4) (Num 4) None] (Num 3) Average ! 1 = DataPointTuple NaN (Num 1) None
   \<and> length (sampleByBuckets
     [DataPointTuple (Num 0) (Num 0) None, DataPointTuple NaN (Num 1) None,
      DataPointObject (Num 2) NaN None, DataPointTuple PosInf (Num 3) (Some (Num 7)),
      DataPointTuple (Num 4) (Num 4) None] (Num 3) Average) = 3
   \<and> sampleByBuckets
       (map (\<lambda>i. DataPointTuple (Num (real i)) (if i = 15 \<or> i = 16 then NaN else Num (real i)) None)
          [0..<32])
       (Num 24) Max ! 12 = DataPointTuple (Num 15) NaN None"
proof -
  have small: "sampleByBuckets
     [DataPointTuple (Num 0) (Num 0) None, DataPointTuple NaN (Num 1) None,
      DataPointObject (Num 2) NaN None, DataPointTuple PosInf (Num 3) (Some (Num 7)),
      DataPointTuple (Num 4) (Num 4) None] (Num 3) Average ! 1 = DataPointTuple NaN (Num 1) None
   \<and> length (sampleByBuckets
     [DataPointTuple (Num 0) (Num 0) None, DataPointTuple NaN (Num 1) None,
      DataPointObject (Num 2) NaN None, DataPointTuple PosInf (Num 3) (Some (Num 7)),
      DataPointTuple (Num 4) (Num 4) None] (Num 3) Average) = 3"
  proof -
    let ?data = "[DataPointTuple (Num 0) (Num 0) None, DataPointTuple NaN (Num 1) None,
        DataPointObject (Num 2) NaN None, DataPointTuple PosInf (Num 3) (Some (Num 7)),
        DataPointTuple (Num 4) (Num 4) None]"
    have r: "bucketRange (length ?data) (clampTargetPoints (Num 3)) 0 = (1, 4)"
      by (simp add: bucketRange_def bucketSize_def double_eval)
    have ex: "\<forall>j. 1 \<le> j \<and> j < 4 \<longrightarrow> excluded Average (?data ! j)"
    proof (intro allI impI)
      fix j :: nat assume "1 \<le> j \<and> j < 4"
      then have "j = 1 \<or> j = 2 \<or> j = 3" by arith
      then show "excluded Average (?data ! j)" by (auto simp: excluded_def)
    qed
    show ?thesis
      using bucket_all_excluded_keeps_start_point[of "Num 3" ?data 0 1 4 Average, OF _ _ _ r ex] by simp
  qed
  have large: "sampleByBuckets
       (map (\<lambda>i. DataPointTuple (Num (real i)) (if i = 15 \<or> i = 16 then NaN else Num (real i)) None)
          [0..<32])
       (Num 24) Max ! 12 = DataPointTuple (Num 15) NaN None"
  proof -
    let ?data = "map (\<lambda>i. DataPointTuple (Num (real i))
                      (if i = 15 \<or> i = 16 then NaN else Num (real i)) None) [0..<32]"
    have r: "bucketRange (length ?data) (clampTargetPoints (Num 24)) 11 = (15, 17)"
      by (simp add: bucketRange_32_24)
    have ex: "\<forall>j. 15 \<le> j \<and> j < 17 \<longrightarrow> excluded Max (?data ! j)"
    proof (intro allI impI)
      fix j :: nat assume "15 \<le> j \<and> j < 17"
      then have "j = 15 \<or> j = 16" by arith
      then show "excluded Max (?data ! j)" by (auto simp: excluded_def)
    qed
    show ?thesis
      using bucket_all_excluded_keeps_start_point[of "Num 24" ?data 11 15 17 Max, OF _ _ _ r ex]
      by simp
  qed
  show ?thesis using small large by simp
qed


section \<open>The acceptance series: lemmas\<close>

lemma avg_loop_tuples:
  "avg_loop a (map (\<lambda>i. DataPointTuple (Num (f i)) (Num (g i)) (sz i)) ks) =
     \<lparr>sumX = sumX a + sum_list (map f ks), sumY = sumY a + sum_list (map g ks),
      sumSize = sumSize a + sum_list (List.map_filter finiteValue (map sz ks)),
      count = count a + length ks,
      sizeCount = sizeCount a + length (List.map_filter finiteValue (map sz ks))\<rparr>"
proof (induction ks arbitrary: a)
  case Nil
  show ?case by (simp add: List.map_filter_simps)
next
  case (Cons k ks)
  show ?case
  proof (cases "finiteValue (sz k)")
    case None
    then have "avg_step a (DataPointTuple (Num (f k)) (Num (g k)) (sz k))
               = a\<lparr>sumX := sumX a + f k, sumY := sumY a + g k, count := count a + 1\<rparr>"
      by (auto simp: finiteValue_def split: option.splits jsnum.splits)
    then show ?thesis using None by (simp add: Cons.IH List.map_filter_simps)
  next
    case (Some v)
    then have "sz k = Some (Num v)"
      by (auto simp: finiteValue_def split: option.splits jsnum.splits)
    then have "avg_step a (DataPointTuple (Num (f k)) (Num (g k)) (sz k))
               = a\<lparr>sumX := sumX a + f k, sumY := sumY a + g k, count := count a + 1,
                    sumSize := sumSize a + v, sizeCount := sizeCount a + 1\<rparr>"
      by simp
    then show ?thesis using Some by (simp add: Cons.IH List.map_filter_simps)
  qed
qed

lemma bucketChosen_tuples:
  assumes "ks \<noteq> []"
  shows "bucketChosen Average (map (\<lambda>i. DataPointTuple (Num (f i)) (Num (g i)) (sz i)) ks) =
     Some (DataPointTuple (Num (sum_list (map f ks) / real (length ks)))
                          (Num (sum_list (map g ks) / real (length ks)))
                          (meanFinite (map sz ks)))"
  using assms
  by (simp add: bucketChosen_def avg_loop_tuples avg_chosen_def avg_init_def meanFinite_def Let_def)

lemma acceptance_ranges:
  "bucketRange 10 5 0 = (1, 3)" "bucketRange 10 5 1 = (3, 6)" "bucketRange 10 5 2 = (6, 9)"
  by (simp_all add: bucketRange_def bucketSize_def double_eval)

lemma acceptance_bucketPoints:
  "lo \<le> hi \<Longrightarrow> hi \<le> 10 \<Longrightarrow> bucketPoints (acceptanceSeries sz) (lo, hi) =
     map (\<lambda>i. DataPointTuple (Num (real i)) (Num (real i)) (sz i)) [lo..<hi]"
  by (simp add: bucketPoints_def acceptanceSeries_def)

lemma acceptance_bucket:
  assumes "bucketRange 10 5 b = (lo, hi)" and "[lo..<hi] = ks" and "ks \<noteq> []" and "lo \<le> hi" and "hi \<le> 10"
  shows "bucketOut (acceptanceSeries sz) 5 Average b =
           DataPointTuple (Num (sum_list (map real ks) / real (length ks)))
                          (Num (sum_list (map real ks) / real (length ks)))
                          (meanFinite (map sz ks))"
proof -
  have len: "length (acceptanceSeries sz) = 10" by (simp add: acceptanceSeries_def)
  have "bucketPoints (acceptanceSeries sz) (lo, hi) =
          map (\<lambda>i. DataPointTuple (Num (real i)) (Num (real i)) (sz i)) ks"
    using acceptance_bucketPoints[OF assms(4,5)] assms(2) by simp
  then have "bucketChosen Average (bucketPoints (acceptanceSeries sz) (lo, hi)) =
          Some (DataPointTuple (Num (sum_list (map real ks) / real (length ks)))
                          (Num (sum_list (map real ks) / real (length ks)))
                          (meanFinite (map sz ks)))"
    using bucketChosen_tuples[OF assms(3), of real real sz] by simp
  then show ?thesis by (simp add: bucketOut_def len assms(1))
qed

lemma acceptance_bucketOut:
  "bucketOut (acceptanceSeries sz) 5 Average 0 = DataPointTuple (Num (3 / 2)) (Num (3 / 2)) (meanFinite [sz 1, sz 2])"
  "bucketOut (acceptanceSeries sz) 5 Average 1 = DataPointTuple (Num 4) (Num 4) (meanFinite [sz 3, sz 4, sz 5])"
  "bucketOut (acceptanceSeries sz) 5 Average 2 = DataPointTuple (Num 7) (Num 7) (meanFinite [sz 6, sz 7, sz 8])"
proof -
  have u1: "[1..<3] = [1, 2::nat]" by (simp add: upt_rec)
  have u2: "[3..<6] = [3, 4, 5::nat]" by (simp add: upt_rec)
  have u3: "[6..<9] = [6, 7, 8::nat]" by (simp add: upt_rec)
  show "bucketOut (acceptanceSeries sz) 5 Average 0 = DataPointTuple (Num (3 / 2)) (Num (3 / 2)) (meanFinite [sz 1, sz 2])"
    using acceptance_bucket[OF acceptance_ranges(1) u1, of sz] by simp
  show "bucketOut (acceptanceSeries sz) 5 Average 1 = DataPointTuple (Num 4) (Num 4) (meanFinite [sz 3, sz 4, sz 5])"
    using acceptance_bucket[OF acceptance_ranges(2) u2, of sz] by simp
  show "bucketOut (acceptanceSeries sz) 5 Average 2 = DataPointTuple (Num 7) (Num 7) (meanFinite [sz 6, sz 7, sz 8])"
    using acceptance_bucket[OF acceptance_ranges(3) u3, of sz] by simp
qed

lemma acceptance_result:
  "sampleSeriesDataPoints lttb (acceptanceSeries sz) Sampling_average (Num 5) =
     [DataPointTuple (Num 0) (Num 0) (sz 0),
      DataPointTuple (Num (3 / 2)) (Num (3 / 2)) (meanFinite [sz 1, sz 2]),
      DataPointTuple (Num 4) (Num 4) (meanFinite [sz 3, sz 4, sz 5]),
      DataPointTuple (Num 7) (Num 7) (meanFinite [sz 6, sz 7, sz 8]),
      DataPointTuple (Num 9) (Num 9) (sz 9)]"
proof -
  have len: "length (acceptanceSeries sz) = 10" by (simp add: acceptanceSeries_def)
  have u: "[0..<3] = [0, 1, 2::nat]" by (simp add: upt_rec)
  have first: "acceptanceSeries sz ! 0 = DataPointTuple (Num 0) (Num 0) (sz 0)"
    by (simp add: acceptanceSeries_def)
  have last: "acceptanceSeries sz ! 9 = DataPointTuple (Num 9) (Num 9) (sz 9)"
    by (simp add: acceptanceSeries_def)
  have "sampleSeriesDataPoints lttb (acceptanceSeries sz) Sampling_average (Num 5)
        = sampleByBuckets (acceptanceSeries sz) (Num 5) Average"
    by (simp add: sampleSeriesDataPoints_def len)
  also have "\<dots> = acceptanceSeries sz ! 0 # map (bucketOut (acceptanceSeries sz) 5 Average) [0..<3]
                   @ [acceptanceSeries sz ! 9]"
    by (simp add: sampleByBuckets_def len)
  finally show ?thesis using acceptance_bucketOut[of sz] by (simp add: u first last)
qed

section \<open>Average sampling and the degenerate targets\<close>

text \<open>
  Claim C3. \<open>average\<close> sampling of the ten-point series \<open>[(0,0), ..., (9,9)]\<close> to a
  target of 5 returns five points, whatever optional sizes the points carry. The point
  at output index 1 is the mean of the source points 1 and 2, that is \<open>(1.5, 1.5)\<close>; each
  averaged point carries the mean of the finite sizes of its bucket when there is one
  (\<open>2.5\<close> for the sizes 2 and 3) and has no size field when there is none.
\<close>

theorem average_of_acceptance_series:
  "sampleSeriesDataPoints lttb (acceptanceSeries sz) Sampling_average (Num 5) =
     [DataPointTuple (Num 0) (Num 0) (sz 0),
      DataPointTuple (Num (3 / 2)) (Num (3 / 2)) (meanFinite [sz 1, sz 2]),
      DataPointTuple (Num 4) (Num 4) (meanFinite [sz 3, sz 4, sz 5]),
      DataPointTuple (Num 7) (Num 7) (meanFinite [sz 6, sz 7, sz 8]),
      DataPointTuple (Num 9) (Num 9) (sz 9)]
   \<and> length (sampleSeriesDataPoints lttb (acceptanceSeries sz) Sampling_average (Num 5)) = 5
   \<and> sampleSeriesDataPoints lttb (acceptanceSeries (\<lambda>i. Some (Num (real i + 1)))) Sampling_average (Num 5) ! 1
       = DataPointTuple (Num (3 / 2)) (Num (3 / 2)) (Some (Num (5 / 2)))
   \<and> sampleSeriesDataPoints lttb (acceptanceSeries (\<lambda>i. None)) Sampling_average (Num 5) ! 1
       = DataPointTuple (Num (3 / 2)) (Num (3 / 2)) None"
proof -
  have m1: "meanFinite [Some (Num 2), Some (Num 3)] = Some (Num (5 / 2))"
    by (simp add: meanFinite_def finiteValue_def List.map_filter_simps)
  have m2: "meanFinite [None, None] = None"
    by (simp add: meanFinite_def finiteValue_def List.map_filter_simps)
  show ?thesis
    by (simp add: acceptance_result m1 m2)
qed


text \<open>
  Claim C5, as amended. After flooring (a non-finite target counts as 0): with a target
  \<open>\<le> 0\<close> or an empty source the bucket sampler returns the empty sequence, and the
  entry point \<open>sampleSeriesDataPoints\<close> returns the source unchanged; with target 1 and
  a non-empty source the result is the first point alone; with target 2 and at least two
  points it is the first and the last point; and whenever the source is no longer than
  a positive target, the result is the source sequence itself.
\<close>

theorem degenerate_targets:
  "(clampTargetPoints tp \<le> 0 \<or> data = [] \<longrightarrow> sampleByBuckets data tp mode = [])
   \<and> (clampTargetPoints tp = 1 \<and> data \<noteq> [] \<longrightarrow> sampleByBuckets data tp mode = [hd data])
   \<and> (clampTargetPoints tp = 2 \<and> 2 \<le> length data
        \<longrightarrow> sampleByBuckets data tp mode = [hd data, last data])
   \<and> (0 < clampTargetPoints tp \<and> int (length data) \<le> clampTargetPoints tp
        \<longrightarrow> sampleByBuckets data tp mode = data)
   \<and> (clampTargetPoints tp \<le> 0 \<or> int (length data) \<le> clampTargetPoints tp
        \<longrightarrow> sampleSeriesDataPoints lttb data sampling tp = data)
   \<and> (sampling \<in> {Sampling_average, Sampling_max, Sampling_min}
        \<and> clampTargetPoints tp = 1 \<and> 1 < length data
        \<longrightarrow> sampleSeriesDataPoints lttb data sampling tp = [hd data])
   \<and> (sampling \<in> {Sampling_average, Sampling_max, Sampling_min}
        \<and> clampTargetPoints tp = 2 \<and> 2 < length data
        \<longrightarrow> sampleSeriesDataPoints lttb data sampling tp = [hd data, last data])"
proof (intro conjI impI)
  assume "clampTargetPoints tp \<le> 0 \<or> data = []"
  then show "sampleByBuckets data tp mode = []" by (auto simp: sampleByBuckets_def)
next
  assume "clampTargetPoints tp = 1 \<and> data \<noteq> []"
  then show "sampleByBuckets data tp mode = [hd data]"
    by (simp add: sampleByBuckets_def hd_conv_nth)
next
  assume "clampTargetPoints tp = 2 \<and> 2 \<le> length data"
  moreover from this have "data \<noteq> []" by auto
  ultimately show "sampleByBuckets data tp mode = [hd data, last data]"
    by (simp add: sampleByBuckets_def hd_conv_nth last_conv_nth)
next
  assume h: "0 < clampTargetPoints tp \<and> int (length data) \<le> clampTargetPoints tp"
  show "sampleByBuckets data tp mode = data"
  proof (cases data)
    case Nil
    then show ?thesis by (simp add: sampleByBuckets_def)
  next
    case (Cons p ps)
    note c1 = Cons
    show ?thesis
    proof (cases ps)
      case Nil
      then show ?thesis using h c1 by (auto simp: sampleByBuckets_def Let_def)
    next
      case (Cons q qs)
      then show ?thesis using h c1 by (cases qs) (auto simp: sampleByBuckets_def Let_def)
    qed
  qed
next
  assume "clampTargetPoints tp \<le> 0 \<or> int (length data) \<le> clampTargetPoints tp"
  then show "sampleSeriesDataPoints lttb data sampling tp = data"
    by (auto simp: sampleSeriesDataPoints_def Let_def)
next
  assume h: "sampling \<in> {Sampling_average, Sampling_max, Sampling_min}
        \<and> clampTargetPoints tp = 1 \<and> 1 < length data"
  then have "data \<noteq> []" by auto
  then show "sampleSeriesDataPoints lttb data sampling tp = [hd data]"
    using h by (auto simp: sampleSeriesDataPoints_def sampleByBuckets_def Let_def hd_conv_nth)
next
  assume h: "sampling \<in> {Sampling_average, Sampling_max, Sampling_min}
        \<and> clampTargetPoints tp = 2 \<and> 2 < length data"
  then have "data \<noteq> []" by auto
  then show "sampleSeriesDataPoints lttb data sampling tp = [hd data, last data]"
    using h by (auto simp: sampleSeriesDataPoints_def sampleByBuckets_def Let_def hd_conv_nth last_conv_nth)
qed

theorem degenerate_targets_witness:
  "sampleByBuckets [DataPointTuple (Num 0) (Num 5) None, DataPointTuple (Num 1) (Num 6) None,
                    DataPointTuple (Num 2) (Num 7) None] (Num (- 1)) Max = []
   \<and> sampleByBuckets [DataPointTuple (Num 0) (Num 5) None, DataPointTuple (Num 1) (Num 6) None,
                    DataPointTuple (Num 2) (Num 7) None] (Num 1) Max = [DataPointTuple (Num 0) (Num 5) None]
   \<and> sampleByBuckets [DataPointTuple (Num 0) (Num 5) None, DataPointTuple (Num 1) (Num 6) None,
                    DataPointTuple (Num 2) (Num 7) None] (Num 2) Max
       = [DataPointTuple (Num 0) (Num 5) None, DataPointTuple (Num 2) (Num 7) None]
   \<and> sampleByBuckets [DataPointTuple (Num 0) (Num 5) None, DataPointTuple (Num 1) (Num 6) None,
                    DataPointTuple (Num 2) (Num 7) None] (Num 3) Max
       = [DataPointTuple (Num 0) (Num 5) None, DataPointTuple (Num 1) (Num 6) None,
                    DataPointTuple (Num 2) (Num 7) None]
   \<and> sampleSeriesDataPoints (\<lambda>d t. d) [DataPointTuple (Num 0) (Num 5) None, DataPointTuple (Num 1) (Num 6) None,
                    DataPointTuple (Num 2) (Num 7) None] Sampling_max (Num 0)
       = [DataPointTuple (Num 0) (Num 5) None, DataPointTuple (Num 1) (Num 6) None,
                    DataPointTuple (Num 2) (Num 7) None]
   \<and> sampleSeriesDataPoints (\<lambda>d t. d) [DataPointTuple (Num 0) (Num 5) None, DataPointTuple (Num 1) (Num 6) None,
                    DataPointTuple (Num 2) (Num 7) None] Sampling_max (Num 1)
       = [DataPointTuple (Num 0) (Num 5) None]
   \<and> sampleSeriesDataPoints (\<lambda>d t. d) [DataPointTuple (Num 0) (Num 5) None, DataPointTuple (Num 1) (Num 6) None,
                    DataPointTuple (Num 2) (Num 7) None] Sampling_max (Num 2)
       = [DataPointTuple (Num 0) (Num 5) None, DataPointTuple (Num 2) (Num 7) None]"
proof -
  let ?d = "[DataPointTuple (Num 0) (Num 5) None, DataPointTuple (Num 1) (Num 6) None,
             DataPointTuple (Num 2) (Num 7) None]"
  let ?id = "\<lambda>(d::DataPoint list) (t::int). d"
  show ?thesis
    using degenerate_targets[of "Num (- 1)" ?d Max ?id Sampling_max]
          degenerate_targets[of "Num 1" ?d Max ?id Sampling_max]
          degenerate_targets[of "Num 2" ?d Max ?id Sampling_max]
          degenerate_targets[of "Num 3" ?d Max ?id Sampling_max]
          degenerate_targets[of "Num 0" ?d Max ?id Sampling_max]
    by simp
qed


text \<open>
  Claim C5 as stated fails: a target of 0 is \<open>\<le> 1\<close>, yet the bucket sampler returns no
  point at all and the entry point returns all three source points; and an empty source
  has no first point to return.
\<close>

theorem target_zero_counterexample:
  "sampleByBuckets [DataPointTuple (Num 0) (Num 5) None, DataPointTuple (Num 1) (Num 6) None,
                    DataPointTuple (Num 2) (Num 7) None] (Num 0) Average = []
   \<and> sampleSeriesDataPoints (\<lambda>d t. d) [DataPointTuple (Num 0) (Num 5) None, DataPointTuple (Num 1) (Num 6) None,
                    DataPointTuple (Num 2) (Num 7) None] Sampling_average (Num 0)
       = [DataPointTuple (Num 0) (Num 5) None, DataPointTuple (Num 1) (Num 6) None,
                    DataPointTuple (Num 2) (Num 7) None]
   \<and> sampleByBuckets [] (Num 1) Average = []"
  by (simp add: sampleByBuckets_def sampleSeriesDataPoints_def Let_def)

section \<open>Touch gestures: lemmas\<close>

lemma js_lt_trans: "js_lt a b \<Longrightarrow> js_lt b c \<Longrightarrow> js_lt a c"
  by (cases a; cases b; cases c) auto

lemma factor_spread:
  assumes "js_lt (Num 0) prev" "js_lt prev cur"
  shows "js_lt (js_div prev cur) (Num 1)" "\<not> js_gt (js_div prev cur) (Num 1)" "js_gt cur (Num 0)" "js_gt prev (Num 0)"
  using assms by (cases prev; cases cur; auto simp: js_gt_def)+

lemma factor_pinch:
  assumes "js_lt (Num 0) cur" "js_lt cur prev"
  shows "js_gt (js_div prev cur) (Num 1)" "js_gt cur (Num 0)" "js_gt prev (Num 0)"
  using assms by (cases prev; cases cur; auto simp: js_gt_def inf_of_sign_def)+

lemma factor_iff:
  assumes "js_gt prev (Num 0)" "js_gt cur (Num 0)"
  shows "js_lt (js_div prev cur) (Num 1) \<longleftrightarrow> js_lt prev cur"
    and "js_gt (js_div prev cur) (Num 1) \<longleftrightarrow> js_lt cur prev"
  using assms by (cases prev; cases cur; auto simp: js_gt_def inf_of_sign_def)+

lemma map_set_keys:
  "k \<in> set (map fst m) \<Longrightarrow> map fst (map_set k v m) = map fst m"
proof (induction m)
  case Nil
  then show ?case by simp
next
  case (Cons kv m)
  show ?case
  proof (cases "k = fst kv")
    case True
    then show ?thesis by (cases kv) simp
  next
    case False
    then have "k \<in> set (map fst m)" using Cons.prems by auto
    then show ?thesis using False Cons.IH by (cases kv) simp
  qed
qed

lemma length_map_set: "k \<in> set (map fst m) \<Longrightarrow> length (map_set k v m) = length m"
  using map_set_keys[of k m v] by (metis length_map)

text \<open>What the pinch body adds to the log: an optional zoom call, then an optional pan.\<close>

lemma pinchZoomPan_calls:
  "\<exists>pans. calls (pinchZoomPan clamp zs e p1 p2 st) =
      calls st
      @ (if js_gt (js_div (previousPinchDist st) (pinchDist p1 p2)) (Num 1)
         then [ZoomOut (pinchCenterPct clamp zs e p1 p2 st) (js_div (previousPinchDist st) (pinchDist p1 p2))]
         else if js_lt (js_div (previousPinchDist st) (pinchDist p1 p2)) (Num 1)
         then [ZoomIn (pinchCenterPct clamp zs e p1 p2 st)
                 (js_div (Num 1) (js_div (previousPinchDist st) (pinchDist p1 p2)))]
         else [])
      @ pans \<and> filter (Not \<circ> isPan) pans = []"
  by (auto simp: pinchZoomPan_def Let_def do_call_def)

lemma pinchZoomPan_fields:
  "activePointers (pinchZoomPan clamp zs e p1 p2 st) = activePointers st"
  by (auto simp: pinchZoomPan_def Let_def do_call_def)

lemma touchPinch_calls:
  assumes "activePointers (trackMove e st) = (k1, p1) # (k2, p2) # rest"
  shows "\<exists>pans. calls (touchPinch clamp zs e st) =
      calls st
      @ (if js_gt (previousPinchDist st) (Num 0) \<and> js_gt (pinchDist p1 p2) (Num 0)
         then (if js_gt (js_div (previousPinchDist st) (pinchDist p1 p2)) (Num 1)
               then [ZoomOut (pinchCenterPct clamp zs e p1 p2 (trackMove e st))
                       (js_div (previousPinchDist st) (pinchDist p1 p2))]
               else if js_lt (js_div (previousPinchDist st) (pinchDist p1 p2)) (Num 1)
               then [ZoomIn (pinchCenterPct clamp zs e p1 p2 (trackMove e st))
                       (js_div (Num 1) (js_div (previousPinchDist st) (pinchDist p1 p2)))]
               else [])
         else [])
      @ pans \<and> filter (Not \<circ> isPan) pans = []"
proof (cases "js_gt (previousPinchDist st) (Num 0) \<and> js_gt (pinchDist p1 p2) (Num 0)")
  case True
  have pd: "previousPinchDist (trackMove e st) = previousPinchDist st"
    and cs: "calls (trackMove e st) = calls st"
    by (simp_all add: trackMove_def)
  from pinchZoomPan_calls[of clamp zs e p1 p2 "trackMove e st"]
  obtain pans where "calls (pinchZoomPan clamp zs e p1 p2 (trackMove e st)) =
      calls st
      @ (if js_gt (js_div (previousPinchDist st) (pinchDist p1 p2)) (Num 1)
         then [ZoomOut (pinchCenterPct clamp zs e p1 p2 (trackMove e st)) (js_div (previousPinchDist st) (pinchDist p1 p2))]
         else if js_lt (js_div (previousPinchDist st) (pinchDist p1 p2)) (Num 1)
         then [ZoomIn (pinchCenterPct clamp zs e p1 p2 (trackMove e st))
                 (js_div (Num 1) (js_div (previousPinchDist st) (pinchDist p1 p2)))]
         else [])
      @ pans" "filter (Not \<circ> isPan) pans = []"
    unfolding pd cs by blast
  then show ?thesis using True assms pd
    by (intro exI[of _ pans]) (simp add: touchPinch_def Let_def)
next
  case False
  then show ?thesis using assms
    by (intro exI[of _ "[]"]) (auto simp: touchPinch_def Let_def trackMove_def)
qed

lemma touchPinch_state:
  assumes "activePointers (trackMove e st) = (k1, p1) # (k2, p2) # rest"
  shows "previousPinchDist (touchPinch clamp zs e st) = pinchDist p1 p2"
    and "previousPinchMidX (touchPinch clamp zs e st) = pinchMidX p1 p2"
    and "activePointers (touchPinch clamp zs e st) = activePointers (trackMove e st)"
  using assms by (simp_all add: touchPinch_def Let_def pinchZoomPan_fields)

lemma js_lt_asym: "js_lt a b \<Longrightarrow> \<not> js_lt b a"
  by (cases a; cases b) auto

lemma no_zoom_in_pans:
  assumes "filter (Not \<circ> isPan) pans = []"
  shows "filter isZoomIn pans = []" and "filter isZoomOut pans = []"
proof -
  have allpan: "\<And>c. c \<in> set pans \<Longrightarrow> isPan c"
    using assms by (auto simp: filter_empty_conv)
  have "\<And>c. c \<in> set pans \<Longrightarrow> \<not> isZoomIn c"
    using allpan by (metis isPan.elims(2) isZoomIn.simps(3))
  then show "filter isZoomIn pans = []" by (simp add: filter_empty_conv)
  have "\<And>c. c \<in> set pans \<Longrightarrow> \<not> isZoomOut c"
    using allpan by (metis isPan.elims(2) isZoomOut.simps(3))
  then show "filter isZoomOut pans = []" by (simp add: filter_empty_conv)
qed

lemma two_pointers:
  assumes "length (ap :: pointers) = 2"
  obtains k1 p1 k2 p2 where "ap = [(k1, p1), (k2, p2)]"
proof -
  from assms obtain a b where "ap = [a, b]"
    by (cases ap; cases "tl ap") auto
  then show ?thesis using that by (cases a; cases b) auto
qed

text \<open>One move of a tracked pointer while two contacts are down.\<close>

lemma pinch_step:
  assumes len: "length (activePointers st) = 2"
    and key: "pointerId e \<in> set (map fst (activePointers st))"
  shows "activePointers (touchPointerMove clamp zs st e)
           = map_set (pointerId e) \<lparr>pt_x = clientX e, pt_y = clientY e\<rparr> (activePointers st)"
    and "previousPinchDist (touchPointerMove clamp zs st e)
           = currentPinchDist (map_set (pointerId e) \<lparr>pt_x = clientX e, pt_y = clientY e\<rparr> (activePointers st))"
    and "\<not> js_gt (previousPinchDist st) (Num 0) \<Longrightarrow>
           filter isZoomIn (calls (touchPointerMove clamp zs st e)) = filter isZoomIn (calls st)
           \<and> filter isZoomOut (calls (touchPointerMove clamp zs st e)) = filter isZoomOut (calls st)"
    and "js_lt (Num 0) (previousPinchDist st) \<Longrightarrow>
         js_lt (previousPinchDist st)
           (currentPinchDist (map_set (pointerId e) \<lparr>pt_x = clientX e, pt_y = clientY e\<rparr> (activePointers st))) \<Longrightarrow>
           length (filter isZoomIn (calls (touchPointerMove clamp zs st e))) = length (filter isZoomIn (calls st)) + 1
           \<and> filter isZoomOut (calls (touchPointerMove clamp zs st e)) = filter isZoomOut (calls st)"
    and "js_lt (Num 0)
           (currentPinchDist (map_set (pointerId e) \<lparr>pt_x = clientX e, pt_y = clientY e\<rparr> (activePointers st))) \<Longrightarrow>
         js_lt (currentPinchDist (map_set (pointerId e) \<lparr>pt_x = clientX e, pt_y = clientY e\<rparr> (activePointers st)))
           (previousPinchDist st) \<Longrightarrow>
           length (filter isZoomOut (calls (touchPointerMove clamp zs st e))) = length (filter isZoomOut (calls st)) + 1
           \<and> filter isZoomIn (calls (touchPointerMove clamp zs st e)) = filter isZoomIn (calls st)"
proof -
  let ?ap = "map_set (pointerId e) \<lparr>pt_x = clientX e, pt_y = clientY e\<rparr> (activePointers st)"
  let ?st' = "touchPointerMove clamp zs st e"
  let ?prev = "previousPinchDist st"
  have "length ?ap = 2" using len key by (simp add: length_map_set)
  then obtain k1 p1 k2 p2 where ap: "?ap = [(k1, p1), (k2, p2)]" by (rule two_pointers)
  have tm: "activePointers (trackMove e st) = (k1, p1) # (k2, p2) # []"
    using ap by (simp add: trackMove_def)
  have cur: "currentPinchDist ?ap = pinchDist p1 p2" using ap by simp
  have step: "?st' = touchPinch clamp zs e st" using len by (simp add: touchPointerMove_def)
  show "activePointers ?st' = ?ap"
    using touchPinch_state(3)[OF tm, of clamp zs] step by (simp add: trackMove_def)
  show "previousPinchDist ?st' = currentPinchDist ?ap"
    using touchPinch_state(1)[OF tm, of clamp zs] step cur by simp
  let ?f = "js_div ?prev (pinchDist p1 p2)"
  let ?c = "pinchCenterPct clamp zs e p1 p2 (trackMove e st)"
  from touchPinch_calls[OF tm, of clamp zs]
  obtain pans where c: "calls ?st' =
      calls st
      @ (if js_gt ?prev (Num 0) \<and> js_gt (pinchDist p1 p2) (Num 0)
         then (if js_gt ?f (Num 1) then [ZoomOut ?c ?f]
               else if js_lt ?f (Num 1) then [ZoomIn ?c (js_div (Num 1) ?f)]
               else [])
         else [])
      @ pans" and p: "filter (Not \<circ> isPan) pans = []"
    unfolding step by blast
  note np = no_zoom_in_pans[OF p]
  {
    assume "\<not> js_gt ?prev (Num 0)"
    then show "filter isZoomIn (calls ?st') = filter isZoomIn (calls st)
           \<and> filter isZoomOut (calls ?st') = filter isZoomOut (calls st)"
      using c np by simp
  }
  {
    assume h: "js_lt (Num 0) ?prev" "js_lt ?prev (currentPinchDist ?ap)"
    note f = factor_spread[OF h(1) h(2)[unfolded cur]]
    have "calls ?st' = calls st @ [ZoomIn ?c (js_div (Num 1) ?f)] @ pans"
      using c f by simp
    then show "length (filter isZoomIn (calls ?st')) = length (filter isZoomIn (calls st)) + 1
           \<and> filter isZoomOut (calls ?st') = filter isZoomOut (calls st)"
      using np by simp
  }
  {
    assume h: "js_lt (Num 0) (currentPinchDist ?ap)" "js_lt (currentPinchDist ?ap) ?prev"
    note f = factor_pinch[OF h(1)[unfolded cur] h(2)[unfolded cur]]
    have "calls ?st' = calls st @ [ZoomOut ?c ?f] @ pans"
      using c f by simp
    then show "length (filter isZoomOut (calls ?st')) = length (filter isZoomOut (calls st)) + 1
           \<and> filter isZoomIn (calls ?st') = filter isZoomIn (calls st)"
      using np by simp
  }
qed

lemma pinch_step_keys:
  assumes "length (activePointers st) = 2"
    and "pointerId e \<in> set (map fst (activePointers st))"
  shows "length (activePointers (touchPointerMove clamp zs st e)) = 2"
    and "map fst (activePointers (touchPointerMove clamp zs st e)) = map fst (activePointers st)"
  using pinch_step(1)[OF assms, of clamp zs] assms
  by (simp_all add: length_map_set map_set_keys)

lemma moves_spread:
  assumes "length (activePointers st) = 2"
    and "set (map pointerId es) \<subseteq> set (map fst (activePointers st))"
    and "js_lt (Num 0) (previousPinchDist st)"
    and "strictlyIncreasing (previousPinchDist st # pinchDistances (activePointers st) es)"
  shows "length (filter isZoomIn (calls (touchMoves clamp zs st es)))
           = length (filter isZoomIn (calls st)) + length es
       \<and> filter isZoomOut (calls (touchMoves clamp zs st es)) = filter isZoomOut (calls st)"
  using assms
proof (induction es arbitrary: st)
  case Nil
  show ?case by (simp add: touchMoves_def)
next
  case (Cons e es)
  let ?st' = "touchPointerMove clamp zs st e"
  let ?ap = "map_set (pointerId e) \<lparr>pt_x = clientX e, pt_y = clientY e\<rparr> (activePointers st)"
  have key: "pointerId e \<in> set (map fst (activePointers st))" using Cons.prems(2) by simp
  have lt: "js_lt (previousPinchDist st) (currentPinchDist ?ap)"
    and inc: "strictlyIncreasing (currentPinchDist ?ap # pinchDistances ?ap es)"
    using Cons.prems(4) by simp_all
  note s = pinch_step[OF Cons.prems(1) key, of clamp zs]
  note k = pinch_step_keys[OF Cons.prems(1) key, of clamp zs]
  have pos: "js_lt (Num 0) (previousPinchDist ?st')"
    unfolding s(2) using js_lt_trans[OF Cons.prems(3) lt] .
  have keys': "set (map pointerId es) \<subseteq> set (map fst (activePointers ?st'))"
    using Cons.prems(2) k(2) by simp
  have inc': "strictlyIncreasing (previousPinchDist ?st' # pinchDistances (activePointers ?st') es)"
    unfolding s(1) s(2) using inc .
  have IH: "length (filter isZoomIn (calls (touchMoves clamp zs ?st' es)))
           = length (filter isZoomIn (calls ?st')) + length es
       \<and> filter isZoomOut (calls (touchMoves clamp zs ?st' es)) = filter isZoomOut (calls ?st')"
    using Cons.IH[OF k(1) keys' pos inc'] .
  have "touchMoves clamp zs st (e # es) = touchMoves clamp zs ?st' es"
    by (simp add: touchMoves_def)
  then show ?case using IH s(4)[OF Cons.prems(3) lt] by simp
qed

lemma decreasing_head_positive:
  "strictlyDecreasing (c # ds) \<Longrightarrow> js_lt (Num 0) (last (c # ds)) \<Longrightarrow> js_lt (Num 0) c"
proof (induction ds arbitrary: c)
  case Nil
  then show ?case by simp
next
  case (Cons d ds)
  then have "js_lt (Num 0) d" by simp
  moreover have "js_lt d c" using Cons.prems(1) by simp
  ultimately show ?case by (rule js_lt_trans)
qed

lemma moves_pinch:
  assumes "length (activePointers st) = 2"
    and "set (map pointerId es) \<subseteq> set (map fst (activePointers st))"
    and "js_lt (Num 0) (last (previousPinchDist st # pinchDistances (activePointers st) es))"
    and "strictlyDecreasing (previousPinchDist st # pinchDistances (activePointers st) es)"
  shows "length (filter isZoomOut (calls (touchMoves clamp zs st es)))
           = length (filter isZoomOut (calls st)) + length es
       \<and> filter isZoomIn (calls (touchMoves clamp zs st es)) = filter isZoomIn (calls st)"
  using assms
proof (induction es arbitrary: st)
  case Nil
  show ?case by (simp add: touchMoves_def)
next
  case (Cons e es)
  let ?st' = "touchPointerMove clamp zs st e"
  let ?ap = "map_set (pointerId e) \<lparr>pt_x = clientX e, pt_y = clientY e\<rparr> (activePointers st)"
  have key: "pointerId e \<in> set (map fst (activePointers st))" using Cons.prems(2) by simp
  have lt: "js_lt (currentPinchDist ?ap) (previousPinchDist st)"
    and dec: "strictlyDecreasing (currentPinchDist ?ap # pinchDistances ?ap es)"
    using Cons.prems(4) by simp_all
  have lastpos: "js_lt (Num 0) (last (currentPinchDist ?ap # pinchDistances ?ap es))"
    using Cons.prems(3) by simp
  have curpos: "js_lt (Num 0) (currentPinchDist ?ap)"
    using decreasing_head_positive[OF dec lastpos] .
  note s = pinch_step[OF Cons.prems(1) key, of clamp zs]
  note k = pinch_step_keys[OF Cons.prems(1) key, of clamp zs]
  have keys': "set (map pointerId es) \<subseteq> set (map fst (activePointers ?st'))"
    using Cons.prems(2) k(2) by simp
  have lastpos': "js_lt (Num 0) (last (previousPinchDist ?st' # pinchDistances (activePointers ?st') es))"
    unfolding s(1) s(2) using lastpos .
  have dec': "strictlyDecreasing (previousPinchDist ?st' # pinchDistances (activePointers ?st') es)"
    unfolding s(1) s(2) using dec .
  have IH: "length (filter isZoomOut (calls (touchMoves clamp zs ?st' es)))
           = length (filter isZoomOut (calls ?st')) + length es
       \<and> filter isZoomIn (calls (touchMoves clamp zs ?st' es)) = filter isZoomIn (calls ?st')"
    using Cons.IH[OF k(1) keys' lastpos' dec'] .
  have "touchMoves clamp zs st (e # es) = touchMoves clamp zs ?st' es"
    by (simp add: touchMoves_def)
  then show ?case using IH s(5)[OF curpos lt] by simp
qed

lemma pinchDist_flat:
  "pinchDist \<lparr>pt_x = Num a, pt_y = Num c\<rparr> \<lparr>pt_x = Num b, pt_y = Num c\<rparr> = Num \<bar>a - b\<bar>"
  by (simp add: pinchDist_def js_sub_def)

lemmas run_defs = touchPointerMove_def touchPinch_def pinchZoomPan_def pinchCenterPct_def
  pinchPlotWidth_def pinchMidX_def trackMove_def do_call_def twoContacts_def touchAt_def
  testPayload_def mockZoomState_def clampNum_def js_sub_def js_gt_def inf_of_sign_def Let_def

section \<open>Touch gestures: properties\<close>

text \<open>
  Claim C10. With one tracked contact, the touch move handler either leaves the zoom
  state and the call log as they were, or makes exactly one call \<open>pan(delta)\<close> with
  \<open>delta = -(dx / plotWidth) * span\<close> finite and non-zero. When the pointer has no
  previous position, \<open>dx\<close> is zero or not finite, the plot width is not strictly positive,
  or the span is zero or not finite, it is the former: nothing is called, so the division
  by the plot width only ever happens with a strictly positive width.
\<close>

theorem touch_pan_guarded:
  assumes "length (activePointers st) = 1"
  shows "(panBlocked zs st e \<longrightarrow>
            calls (touchPointerMove clamp zs st e) = calls st
            \<and> zoom (touchPointerMove clamp zs st e) = zoom st)
       \<and> (calls (touchPointerMove clamp zs st e) = calls st
            \<and> zoom (touchPointerMove clamp zs st e) = zoom st
          \<or> calls (touchPointerMove clamp zs st e) = calls st @ [Pan (panDelta zs st e)]
            \<and> zoom (touchPointerMove clamp zs st e) = pan zs (panDelta zs st e) (zoom st)
            \<and> isFinite (panDelta zs st e) \<and> \<not> js_eq (panDelta zs st e) (Num 0)
            \<and> \<not> panBlocked zs st e)"
proof (cases "map_of (activePointers st) (pointerId e)")
  case None
  then show ?thesis using assms
    by (simp add: touchPointerMove_def touchPan_def panBlocked_def panDx_def)
next
  case (Some prev)
  let ?dx = "js_sub (clientX e) (pt_x prev)"
  let ?w = "panPlotWidth e"
  let ?span = "panSpan zs st"
  have dx: "panDx st e = Some ?dx" using Some by (simp add: panDx_def)
  show ?thesis
  proof (cases "panBlocked zs st e")
    case True
    then show ?thesis using assms Some dx
      by (auto simp: touchPointerMove_def touchPan_def panBlocked_def panPlotWidth_def panSpan_def trackMove_def Let_def)
  next
    case False
    then have g: "isFinite ?dx" "\<not> js_eq ?dx (Num 0)" "js_gt ?w (Num 0)" "isFinite ?span" "\<not> js_eq ?span (Num 0)"
      using dx by (auto simp: panBlocked_def)
    have d: "panDelta zs st e = js_neg (js_mul (js_div ?dx ?w) ?span)"
      using dx by (simp add: panDelta_def)
    show ?thesis
    proof (cases "isFinite (panDelta zs st e) \<and> \<not> js_eq (panDelta zs st e) (Num 0)")
      case True
      then have "touchPointerMove clamp zs st e =
            do_call zs (Pan (panDelta zs st e))
              (trackMove e st)"
        using assms Some g unfolding d
        by (simp add: touchPointerMove_def touchPan_def panPlotWidth_def panSpan_def trackMove_def Let_def)
      then show ?thesis using False True by (simp add: do_call_def trackMove_def)
    next
      case nocall: False
      then have "touchPointerMove clamp zs st e =
              trackMove e st"
        using assms Some g unfolding d
        by (auto simp: touchPointerMove_def touchPan_def panPlotWidth_def panSpan_def trackMove_def Let_def)
      then show ?thesis using False by (simp add: trackMove_def)
    qed
  qed
qed

theorem touch_pan_guarded_witness:
  "panBlocked mockZoomState (oneContact 400) (touchAt 1 400 310)
   \<and> calls (touchPointerMove clampNum mockZoomState (oneContact 400) (touchAt 1 400 310)) = []
   \<and> \<not> panBlocked mockZoomState (oneContact 400) (touchAt 1 430 300)
   \<and> calls (touchPointerMove clampNum mockZoomState (oneContact 400) (touchAt 1 430 300))
       = [Pan (Num (- 5 / 2))]"
proof -
  have len: "length (activePointers (oneContact 400)) = 1" by (simp add: oneContact_def)
  have b1: "panBlocked mockZoomState (oneContact 400) (touchAt 1 400 310)"
    by (simp add: panBlocked_def panDx_def oneContact_def touchAt_def js_sub_def)
  have b2: "\<not> panBlocked mockZoomState (oneContact 400) (touchAt 1 430 300)"
    by (simp add: panBlocked_def panDx_def panPlotWidth_def panSpan_def oneContact_def touchAt_def
        testPayload_def mockZoomState_def js_sub_def js_gt_def)
  have d: "panDelta mockZoomState (oneContact 400) (touchAt 1 430 300) = Num (- 5 / 2)"
    by (simp add: panDelta_def panDx_def panPlotWidth_def panSpan_def oneContact_def touchAt_def
        testPayload_def mockZoomState_def js_sub_def)
  have c0: "calls (oneContact 400) = []" by (simp add: oneContact_def)
  have nc: "calls (touchPointerMove clampNum mockZoomState (oneContact 400) (touchAt 1 430 300)) \<noteq> []"
    by (simp add: touchPointerMove_def touchPan_def trackMove_def oneContact_def touchAt_def
        testPayload_def mockZoomState_def js_sub_def js_gt_def do_call_def Let_def)
  show ?thesis
    using touch_pan_guarded[OF len, of mockZoomState "touchAt 1 400 310" clampNum]
          touch_pan_guarded[OF len, of mockZoomState "touchAt 1 430 300" clampNum]
          b1 b2 d c0 nc
    by auto
qed

text \<open>
  Claim C2, as amended. In the two-contact step, when a previous-frame reference exists
  (\<open>previousPinchDist > 0\<close>) and the current distance is positive, the factor is
  \<open>previousPinchDist / currentDist\<close>; \<open>zoomIn(center, 1 / factor)\<close> is called exactly
  when the factor is below 1, which is exactly when the distance grew (fingers spread),
  and \<open>zoomOut(center, factor)\<close> exactly when the factor is above 1, which is exactly
  when the distance shrank (fingers pinch). The centre is the contact midpoint mapped
  into percent space. Pans aside, nothing else is called.
\<close>

theorem pinch_zoom_direction:
  assumes "length (activePointers st) = 2"
    and "activePointers (trackMove e st) = (k1, p1) # (k2, p2) # rest"
    and "js_gt (previousPinchDist st) (Num 0)"
    and "js_gt (pinchDist p1 p2) (Num 0)"
  shows "filter (Not \<circ> isPan) (calls (touchPointerMove clamp zs st e)) =
           filter (Not \<circ> isPan) (calls st)
           @ (if js_lt (js_div (previousPinchDist st) (pinchDist p1 p2)) (Num 1)
              then [ZoomIn (pinchCenterPct clamp zs e p1 p2 (trackMove e st))
                      (js_div (Num 1) (js_div (previousPinchDist st) (pinchDist p1 p2)))]
              else if js_gt (js_div (previousPinchDist st) (pinchDist p1 p2)) (Num 1)
              then [ZoomOut (pinchCenterPct clamp zs e p1 p2 (trackMove e st))
                      (js_div (previousPinchDist st) (pinchDist p1 p2))]
              else [])
       \<and> (js_lt (js_div (previousPinchDist st) (pinchDist p1 p2)) (Num 1)
            \<longleftrightarrow> js_lt (previousPinchDist st) (pinchDist p1 p2))
       \<and> (js_gt (js_div (previousPinchDist st) (pinchDist p1 p2)) (Num 1)
            \<longleftrightarrow> js_lt (pinchDist p1 p2) (previousPinchDist st))"
proof -
  let ?f = "js_div (previousPinchDist st) (pinchDist p1 p2)"
  have excl: "js_lt ?f (Num 1) \<Longrightarrow> \<not> js_gt ?f (Num 1)"
    by (simp add: js_gt_def js_lt_asym)
  from touchPinch_calls[OF assms(2), of clamp zs]
  obtain pans where c: "calls (touchPinch clamp zs e st) =
      calls st
      @ (if js_gt ?f (Num 1)
         then [ZoomOut (pinchCenterPct clamp zs e p1 p2 (trackMove e st)) ?f]
         else if js_lt ?f (Num 1)
         then [ZoomIn (pinchCenterPct clamp zs e p1 p2 (trackMove e st)) (js_div (Num 1) ?f)]
         else [])
      @ pans" and p: "filter (Not \<circ> isPan) pans = []"
    using assms(3,4) by auto
  have "touchPointerMove clamp zs st e = touchPinch clamp zs e st"
    using assms(1) by (simp add: touchPointerMove_def)
  then have "filter (Not \<circ> isPan) (calls (touchPointerMove clamp zs st e)) =
           filter (Not \<circ> isPan) (calls st)
           @ (if js_lt ?f (Num 1)
              then [ZoomIn (pinchCenterPct clamp zs e p1 p2 (trackMove e st)) (js_div (Num 1) ?f)]
              else if js_gt ?f (Num 1)
              then [ZoomOut (pinchCenterPct clamp zs e p1 p2 (trackMove e st)) ?f]
              else [])"
    using c p excl by auto
  then show ?thesis using factor_iff[OF assms(3,4)] by simp
qed

theorem pinch_zoom_direction_witness:
  "filter (Not \<circ> isPan)
     (calls (touchPointerMove clampNum mockZoomState
        ((twoContacts 300 450)\<lparr>previousPinchDist := Num 150, previousPinchMidX := Num 375\<rparr>)
        (touchAt 2 500 300)))
   = [ZoomIn (Num (145 / 3)) (Num (4 / 3))]"
proof -
  let ?st = "(twoContacts 300 450)\<lparr>previousPinchDist := Num 150, previousPinchMidX := Num 375\<rparr>"
  let ?p1 = "\<lparr>pt_x = Num 300, pt_y = Num 300\<rparr>"
  let ?p2 = "\<lparr>pt_x = Num 500, pt_y = Num 300\<rparr>"
  have a1: "length (activePointers ?st) = 2" by (simp add: twoContacts_def)
  have a2: "activePointers (trackMove (touchAt 2 500 300) ?st) = (1, ?p1) # (2, ?p2) # []"
    by (simp add: trackMove_def twoContacts_def touchAt_def)
  have a3: "js_gt (previousPinchDist ?st) (Num 0)" by (simp add: js_gt_def)
  have a4: "js_gt (pinchDist ?p1 ?p2) (Num 0)" by (simp add: pinchDist_flat js_gt_def)
  have c: "pinchCenterPct clampNum mockZoomState (touchAt 2 500 300) ?p1 ?p2
             (trackMove (touchAt 2 500 300) ?st) = Num (145 / 3)"
    by (simp add: pinchCenterPct_def pinchPlotWidth_def pinchMidX_def trackMove_def touchAt_def
        testPayload_def mockZoomState_def clampNum_def js_sub_def js_gt_def)
  have c0: "calls ?st = []" by (simp add: twoContacts_def)
  show ?thesis
    using pinch_zoom_direction[OF a1 a2 a3 a4, of clampNum mockZoomState]
    by (simp add: pinchDist_flat c c0)
qed

text \<open>
  Claim C2 as stated fails: with a previous distance of 100 and a current distance of
  200 the factor is \<open>1/2\<close>, which is below 1, and the call made is \<open>zoomIn\<close>, not
  \<open>zoomOut\<close>.
\<close>

theorem pinch_factor_counterexample:
  "previousPinchDist ((twoContacts 350 450)\<lparr>previousPinchDist := Num 100, previousPinchMidX := Num 400\<rparr>) = Num 100
   \<and> pinchDist \<lparr>pt_x = Num 350, pt_y = Num 300\<rparr> \<lparr>pt_x = Num 550, pt_y = Num 300\<rparr> = Num 200
   \<and> js_div (Num 100) (Num 200) = Num (1 / 2)
   \<and> js_lt (Num (1 / 2)) (Num 1)
   \<and> calls (touchPointerMove clampNum mockZoomState
        ((twoContacts 350 450)\<lparr>previousPinchDist := Num 100, previousPinchMidX := Num 400\<rparr>)
        (touchAt 2 550 300))
      = [ZoomIn (Num (105 / 2)) (Num 2), Pan (Num (- 25 / 6))]"
  by (simp add: pinchDist_flat run_defs del: js_hypot.simps)

text \<open>
  Claim C7, as amended. Two contacts are down and the pinch reference is fresh
  (\<open>previousPinchDist = 0\<close>, as after a contact is added). For every sequence of at least
  two moves of the tracked contacts: if the distance between the contacts is positive and
  strictly increases from move to move, the sequence adds \<open>length - 1 \<ge> 1\<close> calls of
  \<open>zoomIn\<close> and no call of \<open>zoomOut\<close>; if it strictly decreases and stays positive, it
  adds \<open>length - 1 \<ge> 1\<close> calls of \<open>zoomOut\<close> and no call of \<open>zoomIn\<close>. The first move
  only sets the reference.
\<close>

theorem pinch_sequence_zoom_calls:
  assumes "length (activePointers st) = 2"
    and "set (map pointerId es) \<subseteq> set (map fst (activePointers st))"
    and "previousPinchDist st = Num 0"
    and "2 \<le> length es"
  shows "(js_lt (Num 0) (currentPinchDist (activePointers st))
          \<and> strictlyIncreasing (currentPinchDist (activePointers st) # pinchDistances (activePointers st) es)
          \<longrightarrow> length (filter isZoomIn (calls (touchMoves clamp zs st es)))
                = length (filter isZoomIn (calls st)) + (length es - 1)
              \<and> 1 \<le> length es - 1
              \<and> filter isZoomOut (calls (touchMoves clamp zs st es)) = filter isZoomOut (calls st))
       \<and> (js_lt (Num 0) (last (pinchDistances (activePointers st) es))
          \<and> strictlyDecreasing (currentPinchDist (activePointers st) # pinchDistances (activePointers st) es)
          \<longrightarrow> length (filter isZoomOut (calls (touchMoves clamp zs st es)))
                = length (filter isZoomOut (calls st)) + (length es - 1)
              \<and> 1 \<le> length es - 1
              \<and> filter isZoomIn (calls (touchMoves clamp zs st es)) = filter isZoomIn (calls st))"
proof -
  from assms(4) obtain e es' where es: "es = e # es'" and ne: "es' \<noteq> []"
    by (cases es; cases "tl es") auto
  let ?st' = "touchPointerMove clamp zs st e"
  let ?ap = "map_set (pointerId e) \<lparr>pt_x = clientX e, pt_y = clientY e\<rparr> (activePointers st)"
  have key: "pointerId e \<in> set (map fst (activePointers st))" using assms(2) es by simp
  note s = pinch_step[OF assms(1) key, of clamp zs]
  note k = pinch_step_keys[OF assms(1) key, of clamp zs]
  have noref: "\<not> js_gt (previousPinchDist st) (Num 0)" using assms(3) by (simp add: js_gt_def)
  note first = s(3)[OF noref]
  have keys': "set (map pointerId es') \<subseteq> set (map fst (activePointers ?st'))"
    using assms(2) es k(2) by simp
  have unfold: "touchMoves clamp zs st es = touchMoves clamp zs ?st' es'"
    using es by (simp add: touchMoves_def)
  have len: "length es - 1 = length es'" "1 \<le> length es - 1" using es ne by (simp_all add: Suc_le_eq)
  show ?thesis
  proof (intro conjI impI)
    assume h: "js_lt (Num 0) (currentPinchDist (activePointers st))
          \<and> strictlyIncreasing (currentPinchDist (activePointers st) # pinchDistances (activePointers st) es)"
    then have lt: "js_lt (currentPinchDist (activePointers st)) (currentPinchDist ?ap)"
      and inc: "strictlyIncreasing (currentPinchDist ?ap # pinchDistances ?ap es')"
      using es by simp_all
    have pos: "js_lt (Num 0) (previousPinchDist ?st')"
      unfolding s(2) using js_lt_trans[OF _ lt] h by simp
    have inc': "strictlyIncreasing (previousPinchDist ?st' # pinchDistances (activePointers ?st') es')"
      unfolding s(1) s(2) using inc .
    note m = moves_spread[OF k(1) keys' pos inc', of clamp zs]
    show "length (filter isZoomIn (calls (touchMoves clamp zs st es)))
                = length (filter isZoomIn (calls st)) + (length es - 1)"
      using m first unfold len by simp
    show "filter isZoomOut (calls (touchMoves clamp zs st es)) = filter isZoomOut (calls st)"
      using m first unfold by simp
    show "1 \<le> length es - 1" using len by simp
  next
    assume h: "js_lt (Num 0) (last (pinchDistances (activePointers st) es))
          \<and> strictlyDecreasing (currentPinchDist (activePointers st) # pinchDistances (activePointers st) es)"
    then have dec: "strictlyDecreasing (currentPinchDist ?ap # pinchDistances ?ap es')"
      and lastpos: "js_lt (Num 0) (last (currentPinchDist ?ap # pinchDistances ?ap es'))"
      using es by simp_all
    have lastpos': "js_lt (Num 0) (last (previousPinchDist ?st' # pinchDistances (activePointers ?st') es'))"
      unfolding s(1) s(2) using lastpos .
    have dec': "strictlyDecreasing (previousPinchDist ?st' # pinchDistances (activePointers ?st') es')"
      unfolding s(1) s(2) using dec .
    note m = moves_pinch[OF k(1) keys' lastpos' dec', of clamp zs]
    show "length (filter isZoomOut (calls (touchMoves clamp zs st es)))
                = length (filter isZoomOut (calls st)) + (length es - 1)"
      using m first unfold len by simp
    show "filter isZoomIn (calls (touchMoves clamp zs st es)) = filter isZoomIn (calls st)"
      using m first unfold by simp
    show "1 \<le> length es - 1" using len by simp
  qed
qed

theorem pinch_sequence_zoom_calls_witness:
  "length (filter isZoomIn (calls (touchMoves clampNum mockZoomState (twoContacts 350 450)
      [touchAt 1 300 300, touchAt 2 500 300]))) = 1
   \<and> filter isZoomOut (calls (touchMoves clampNum mockZoomState (twoContacts 350 450)
      [touchAt 1 300 300, touchAt 2 500 300])) = []
   \<and> length (filter isZoomOut (calls (touchMoves clampNum mockZoomState (twoContacts 300 500)
      [touchAt 1 350 300, touchAt 2 450 300]))) = 1
   \<and> filter isZoomIn (calls (touchMoves clampNum mockZoomState (twoContacts 300 500)
      [touchAt 1 350 300, touchAt 2 450 300])) = []"
proof -
  let ?up = "[touchAt 1 300 300, touchAt 2 500 300]"
  let ?down = "[touchAt 1 350 300, touchAt 2 450 300]"
  have l: "length (activePointers (twoContacts 350 450)) = 2" "length (activePointers (twoContacts 300 500)) = 2"
    by (simp_all add: twoContacts_def)
  have k: "set (map pointerId ?up) \<subseteq> set (map fst (activePointers (twoContacts 350 450)))"
          "set (map pointerId ?down) \<subseteq> set (map fst (activePointers (twoContacts 300 500)))"
    by (simp_all add: twoContacts_def touchAt_def)
  have r: "previousPinchDist (twoContacts 350 450) = Num 0" "previousPinchDist (twoContacts 300 500) = Num 0"
    by (simp_all add: twoContacts_def)
  have n: "2 \<le> length ?up" "2 \<le> length ?down" by simp_all
  have d0: "currentPinchDist (activePointers (twoContacts 350 450)) = Num 100"
           "currentPinchDist (activePointers (twoContacts 300 500)) = Num 200"
    by (simp_all add: twoContacts_def pinchDist_flat)
  have ds: "pinchDistances (activePointers (twoContacts 350 450)) ?up = [Num 150, Num 200]"
           "pinchDistances (activePointers (twoContacts 300 500)) ?down = [Num 150, Num 100]"
    by (simp_all add: twoContacts_def touchAt_def pinchDist_flat)
  have c0: "calls (twoContacts 350 450) = []" "calls (twoContacts 300 500) = []"
    by (simp_all add: twoContacts_def)
  note up = pinch_sequence_zoom_calls[OF l(1) k(1) r(1) n(1), of clampNum mockZoomState,
      unfolded d0 ds c0]
  note down = pinch_sequence_zoom_calls[OF l(2) k(2) r(2) n(2), of clampNum mockZoomState,
      unfolded d0 ds c0]
  show ?thesis using up down by simp
qed

text \<open>
  Claim C7 as stated fails: when the distance goes from 100 to 200 in a single move, that
  move is the reference frame and no zoom call is made at all.
\<close>

theorem single_move_counterexample:
  "currentPinchDist (activePointers (twoContacts 350 450)) = Num 100
   \<and> pinchDistances (activePointers (twoContacts 350 450)) [touchAt 2 550 300] = [Num 200]
   \<and> strictlyIncreasing [Num 100, Num 200]
   \<and> calls (touchMoves clampNum mockZoomState (twoContacts 350 450) [touchAt 2 550 300]) = []"
  by (simp add: pinchDist_flat touchMoves_def run_defs del: js_hypot.simps)

section \<open>Viewport state: properties\<close>

lemma enforceMinSpan_bounds:
  assumes "0 \<le> m" "m \<le> 100" "0 \<le> a" "a \<le> b" "b \<le> 100"
  shows "m \<le> snd (enforceMinSpan m (a, b)) - fst (enforceMinSpan m (a, b))"
    and "0 \<le> fst (enforceMinSpan m (a, b))"
    and "snd (enforceMinSpan m (a, b)) \<le> 100"
  using assms by (auto simp: enforceMinSpan_def Let_def field_simps)

lemma set_range_result:
  "get_range (set_range (Num s) (Num e) st) =
     enforceMinSpan (vp_minSpan st)
       (if clampPercent s > clampPercent e then (clampPercent e, clampPercent s)
        else (clampPercent s, clampPercent e))"
  by (auto simp: set_range_def get_range_def Let_def)

text \<open>
  Claim C1. For every pair of finite numbers, in either order, \<open>set_viewport\<close> followed by
  \<open>get_viewport\<close> returns a range whose span is at least the configured minimum span
  (\<open>0.5\<close> by default; any minimum between 0 and 100) and whose bounds both lie in
  \<open>[0, 100]\<close>.
\<close>

theorem set_then_get_viewport:
  assumes "0 \<le> vp_minSpan st" and "vp_minSpan st \<le> 100"
  shows "vp_minSpan st \<le> snd (get_viewport (set_viewport (Num s) (Num e) st))
                           - fst (get_viewport (set_viewport (Num s) (Num e) st))
       \<and> 0 \<le> fst (get_viewport (set_viewport (Num s) (Num e) st))
       \<and> fst (get_viewport (set_viewport (Num s) (Num e) st)) \<le> 100
       \<and> 0 \<le> snd (get_viewport (set_viewport (Num s) (Num e) st))
       \<and> snd (get_viewport (set_viewport (Num s) (Num e) st)) \<le> 100"
proof -
  let ?a = "min (clampPercent s) (clampPercent e)"
  let ?b = "max (clampPercent s) (clampPercent e)"
  have r: "get_viewport (set_viewport (Num s) (Num e) st) = enforceMinSpan (vp_minSpan st) (?a, ?b)"
    by (auto simp: get_viewport_def set_viewport_def set_range_result min_def max_def)
  have ab: "0 \<le> ?a" "?a \<le> ?b" "?b \<le> 100"
    by (auto simp: clampPercent_def min_def max_def)
  note b = enforceMinSpan_bounds[OF assms ab]
  show ?thesis unfolding r using b assms by linarith
qed

theorem set_then_get_viewport_witness:
  "get_viewport (set_viewport (Num 40) (Num (401 / 10))
      \<lparr>vp_start = 0, vp_end = 100, vp_minSpan = DEFAULT_MIN_SPAN, notifications = 0\<rparr>) = (199 / 5, 403 / 10)
   \<and> get_viewport (set_viewport (Num (999 / 10)) (Num 250)
      \<lparr>vp_start = 0, vp_end = 100, vp_minSpan = DEFAULT_MIN_SPAN, notifications = 0\<rparr>) = (199 / 2, 100)
   \<and> DEFAULT_MIN_SPAN \<le> 403 / 10 - 199 / 5"
proof -
  let ?st = "\<lparr>vp_start = 0, vp_end = 100, vp_minSpan = DEFAULT_MIN_SPAN, notifications = 0\<rparr>"
  have m: "0 \<le> vp_minSpan ?st" "vp_minSpan ?st \<le> 100" by (simp_all add: DEFAULT_MIN_SPAN_def)
  have r1: "get_viewport (set_viewport (Num 40) (Num (401 / 10)) ?st) = (199 / 5, 403 / 10)"
    by (simp add: get_viewport_def set_viewport_def get_range_def set_range_def enforceMinSpan_def
        clampPercent_def DEFAULT_MIN_SPAN_def Let_def)
  have r2: "get_viewport (set_viewport (Num (999 / 10)) (Num 250) ?st) = (199 / 2, 100)"
    by (simp add: get_viewport_def set_viewport_def get_range_def set_range_def enforceMinSpan_def
        clampPercent_def DEFAULT_MIN_SPAN_def Let_def)
  show ?thesis
    using set_then_get_viewport[OF m, of 40 "401 / 10"] r1 r2 by simp
qed

section \<open>Range slicer: properties\<close>

declare lowerBound.simps [simp del] upperBound.simps [simp del]

lemma isMonotonic_sorted: "isMonotonicNonDecreasing xs \<longleftrightarrow> sorted xs"
proof (induction xs rule: isMonotonicNonDecreasing.induct)
  case (3 x y xs)
  then show ?case by (simp add: sorted2 del: sorted_wrt.simps)
qed simp_all

lemma lowerBound_correct:
  assumes "sorted xs" and "lo \<le> hi" and "hi \<le> length xs"
    and "\<forall>i<lo. xs ! i < v" and "\<forall>i. hi \<le> i \<and> i < length xs \<longrightarrow> v \<le> xs ! i"
  shows "lo \<le> lowerBound xs v lo hi \<and> lowerBound xs v lo hi \<le> hi
       \<and> (\<forall>i<lowerBound xs v lo hi. xs ! i < v)
       \<and> (\<forall>i. lowerBound xs v lo hi \<le> i \<and> i < length xs \<longrightarrow> v \<le> xs ! i)"
  using assms
proof (induction xs v lo hi rule: lowerBound.induct)
  case (1 xs v lo hi)
  show ?case
  proof (cases "lo < hi")
    case False
    then have "lowerBound xs v lo hi = lo" by (simp add: lowerBound.simps)
    then show ?thesis using "1.prems" False by auto
  next
    case True
    let ?mid = "(lo + hi) div 2"
    have mid: "lo \<le> ?mid" "?mid < hi" using True by auto
    have midn: "?mid < length xs" using mid "1.prems"(3) by linarith
    show ?thesis
    proof (cases "xs ! ?mid < v")
      case less: True
      have eq: "lowerBound xs v lo hi = lowerBound xs v (?mid + 1) hi"
        using True less by (subst lowerBound.simps) (simp add: Let_def)
      have below: "\<forall>i<?mid + 1. xs ! i < v"
      proof (intro allI impI)
        fix i assume "i < ?mid + 1"
        then have "xs ! i \<le> xs ! ?mid"
          using "1.prems"(1) midn by (intro sorted_nth_mono) auto
        then show "xs ! i < v" using less by linarith
      qed
      have "?mid + 1 \<le> lowerBound xs v (?mid + 1) hi \<and> lowerBound xs v (?mid + 1) hi \<le> hi
       \<and> (\<forall>i<lowerBound xs v (?mid + 1) hi. xs ! i < v)
       \<and> (\<forall>i. lowerBound xs v (?mid + 1) hi \<le> i \<and> i < length xs \<longrightarrow> v \<le> xs ! i)"
        using "1.IH"(1)[OF True refl less "1.prems"(1) _ "1.prems"(3) below "1.prems"(5)] mid
        by simp
      then show ?thesis unfolding eq using mid by auto
    next
      case geq: False
      have eq: "lowerBound xs v lo hi = lowerBound xs v lo ?mid"
        using True geq by (subst lowerBound.simps) (simp add: Let_def)
      have above: "\<forall>i. ?mid \<le> i \<and> i < length xs \<longrightarrow> v \<le> xs ! i"
      proof (intro allI impI)
        fix i assume "?mid \<le> i \<and> i < length xs"
        then have "xs ! ?mid \<le> xs ! i"
          using "1.prems"(1) by (intro sorted_nth_mono) auto
        then show "v \<le> xs ! i" using geq by linarith
      qed
      have "lo \<le> lowerBound xs v lo ?mid \<and> lowerBound xs v lo ?mid \<le> ?mid
       \<and> (\<forall>i<lowerBound xs v lo ?mid. xs ! i < v)
       \<and> (\<forall>i. lowerBound xs v lo ?mid \<le> i \<and> i < length xs \<longrightarrow> v \<le> xs ! i)"
        using "1.IH"(2)[OF True refl geq "1.prems"(1) mid(1) _ "1.prems"(4) above] midn
        by simp
      then show ?thesis unfolding eq using mid by auto
    qed
  qed
qed

lemma upperBound_correct:
  assumes "sorted xs" and "lo \<le> hi" and "hi \<le> length xs"
    and "\<forall>i<lo. xs ! i \<le> v" and "\<forall>i. hi \<le> i \<and> i < length xs \<longrightarrow> v < xs ! i"
  shows "lo \<le> upperBound xs v lo hi \<and> upperBound xs v lo hi \<le> hi
       \<and> (\<forall>i<upperBound xs v lo hi. xs ! i \<le> v)
       \<and> (\<forall>i. upperBound xs v lo hi \<le> i \<and> i < length xs \<longrightarrow> v < xs ! i)"
  using assms
proof (induction xs v lo hi rule: upperBound.induct)
  case (1 xs v lo hi)
  show ?case
  proof (cases "lo < hi")
    case False
    then have "upperBound xs v lo hi = lo" by (simp add: upperBound.simps)
    then show ?thesis using "1.prems" False by auto
  next
    case True
    let ?mid = "(lo + hi) div 2"
    have mid: "lo \<le> ?mid" "?mid < hi" using True by auto
    have midn: "?mid < length xs" using mid "1.prems"(3) by linarith
    show ?thesis
    proof (cases "xs ! ?mid \<le> v")
      case less: True
      have eq: "upperBound xs v lo hi = upperBound xs v (?mid + 1) hi"
        using True less by (subst upperBound.simps) (simp add: Let_def)
      have below: "\<forall>i<?mid + 1. xs ! i \<le> v"
      proof (intro allI impI)
        fix i assume "i < ?mid + 1"
        then have "xs ! i \<le> xs ! ?mid"
          using "1.prems"(1) midn by (intro sorted_nth_mono) auto
        then show "xs ! i \<le> v" using less by linarith
      qed
      have "?mid + 1 \<le> upperBound xs v (?mid + 1) hi \<and> upperBound xs v (?mid + 1) hi \<le> hi
       \<and> (\<forall>i<upperBound xs v (?mid + 1) hi. xs ! i \<le> v)
       \<and> (\<forall>i. upperBound xs v (?mid + 1) hi \<le> i \<and> i < length xs \<longrightarrow> v < xs ! i)"
        using "1.IH"(1)[OF True refl less "1.prems"(1) _ "1.prems"(3) below "1.prems"(5)] mid
        by simp
      then show ?thesis unfolding eq using mid by auto
    next
      case geq: False
      have eq: "upperBound xs v lo hi = upperBound xs v lo ?mid"
        using True geq by (subst upperBound.simps) (simp add: Let_def)
      have above: "\<forall>i. ?mid \<le> i \<and> i < length xs \<longrightarrow> v < xs ! i"
      proof (intro allI impI)
        fix i assume "?mid \<le> i \<and> i < length xs"
        then have "xs ! ?mid \<le> xs ! i"
          using "1.prems"(1) by (intro sorted_nth_mono) auto
        then show "v < xs ! i" using geq by linarith
      qed
      have "lo \<le> upperBound xs v lo ?mid \<and> upperBound xs v lo ?mid \<le> ?mid
       \<and> (\<forall>i<upperBound xs v lo ?mid. xs ! i \<le> v)
       \<and> (\<forall>i. upperBound xs v lo ?mid \<le> i \<and> i < length xs \<longrightarrow> v < xs ! i)"
        using "1.IH"(2)[OF True refl geq "1.prems"(1) mid(1) _ "1.prems"(4) above] midn
        by simp
      then show ?thesis unfolding eq using mid by auto
    qed
  qed
qed

text \<open>
  Claim C4. For a series that the scan finds non-decreasing in x and a window
  \<open>[lo, hi]\<close>, the slicer returns the half-open index range from \<open>l\<close>, the first index
  with \<open>x \<ge> lo\<close>, to \<open>u\<close>, the first index with \<open>x > hi\<close> (the length when there is no
  such index). An index is in the result exactly when its x lies in \<open>[lo, hi]\<close>, so
  points at \<open>x = lo\<close> or \<open>x = hi\<close> and whole runs of equal x are kept. An empty window or
  an empty series gives the empty result; the slicer is a total function and has no
  error result.
\<close>

theorem slice_sorted_bounds:
  assumes "isMonotonicNonDecreasing xs"
  shows "\<exists>l u. sliceVisibleRange xs lo hi = IndexRange l u
           \<and> l \<le> length xs \<and> u \<le> length xs
           \<and> (\<forall>i<l. xs ! i < lo) \<and> (\<forall>i. l \<le> i \<and> i < length xs \<longrightarrow> lo \<le> xs ! i)
           \<and> (\<forall>i<u. xs ! i \<le> hi) \<and> (\<forall>i. u \<le> i \<and> i < length xs \<longrightarrow> hi < xs ! i)
           \<and> (\<forall>i<length xs. i \<in> set (sliceIndices (sliceVisibleRange xs lo hi))
                                 \<longleftrightarrow> lo \<le> xs ! i \<and> xs ! i \<le> hi)
           \<and> (hi < lo \<or> xs = [] \<longrightarrow> sliceIndices (sliceVisibleRange xs lo hi) = [])"
proof -
  let ?l = "lowerBound xs lo 0 (length xs)"
  let ?u = "upperBound xs hi 0 (length xs)"
  have s: "sorted xs" using assms by (simp add: isMonotonic_sorted)
  have L: "?l \<le> length xs" "\<forall>i<?l. xs ! i < lo" "\<forall>i. ?l \<le> i \<and> i < length xs \<longrightarrow> lo \<le> xs ! i"
    using lowerBound_correct[OF s, of 0 "length xs" lo] by simp_all
  have U: "?u \<le> length xs" "\<forall>i<?u. xs ! i \<le> hi" "\<forall>i. ?u \<le> i \<and> i < length xs \<longrightarrow> hi < xs ! i"
    using upperBound_correct[OF s, of 0 "length xs" hi] by simp_all
  have r: "sliceVisibleRange xs lo hi = IndexRange ?l ?u"
    using assms by (simp add: sliceVisibleRange_def)
  have mem: "\<forall>i<length xs. i \<in> set (sliceIndices (sliceVisibleRange xs lo hi))
                                 \<longleftrightarrow> lo \<le> xs ! i \<and> xs ! i \<le> hi"
  proof (intro allI impI)
    fix i assume i: "i < length xs"
    have "?l \<le> i \<longleftrightarrow> lo \<le> xs ! i" using L(2,3) i by (meson not_le)
    moreover have "i < ?u \<longleftrightarrow> xs ! i \<le> hi" using U(2,3) i by (meson not_le)
    ultimately show "i \<in> set (sliceIndices (sliceVisibleRange xs lo hi))
                                 \<longleftrightarrow> lo \<le> xs ! i \<and> xs ! i \<le> hi"
      unfolding r by simp
  qed
  have empty: "hi < lo \<or> xs = [] \<longrightarrow> sliceIndices (sliceVisibleRange xs lo hi) = []"
  proof
    assume h: "hi < lo \<or> xs = []"
    have "?u \<le> ?l"
    proof (rule ccontr)
      assume "\<not> ?u \<le> ?l"
      then have lu: "?l < ?u" by simp
      then have "xs ! ?l \<le> hi" using U(2) by simp
      moreover have "lo \<le> xs ! ?l" using L(3) lu U(1) by simp
      ultimately have "lo \<le> hi" by linarith
      moreover have "xs \<noteq> []" using lu U(1) by auto
      ultimately show False using h by auto
    qed
    then show "sliceIndices (sliceVisibleRange xs lo hi) = []" unfolding r by simp
  qed
  show ?thesis
    using r L U mem empty by blast
qed

theorem slice_sorted_bounds_witness:
  "sliceVisibleRange [0, 100, 100, 150, 200, 200, 300] 100 200 = IndexRange 1 6
   \<and> sliceIndices (sliceVisibleRange [0, 100, 100, 150, 200, 200, 300] 100 200) = [1, 2, 3, 4, 5]
   \<and> sliceIndices (sliceVisibleRange [0, 100, 100, 150, 200, 200, 300] 200 100) = []
   \<and> sliceIndices (sliceVisibleRange [] 100 200) = []"
proof -
  let ?xs = "[0, 100, 100, 150, 200, 200, 300::real]"
  have m: "isMonotonicNonDecreasing ?xs" "isMonotonicNonDecreasing []" by simp_all
  have r: "sliceVisibleRange ?xs 100 200 = IndexRange 1 6"
    by (simp add: sliceVisibleRange_def lowerBound.simps upperBound.simps)
  have u: "[1..<6] = [1, 2, 3, 4, 5::nat]" by (simp add: upt_rec)
  show ?thesis
    using slice_sorted_bounds[OF m(1), of 200 100] slice_sorted_bounds[OF m(2), of 100 200] r u
    by auto
qed

section \<open>Frame coalescer: properties\<close>

lemma request_idle:
  "running c \<Longrightarrow> \<not> pending c \<Longrightarrow> request c = c\<lparr>pending := True, scheduled := scheduled c + 1\<rparr>"
  by (simp add: request_def)

lemma request_pending: "pending c \<Longrightarrow> request c = c"
  by (simp add: request_def)

lemma requests_pending: "pending c \<Longrightarrow> (request ^^ n) c = c"
  by (induction n) (simp_all add: request_pending)

lemma requests_idle:
  assumes "running c" "\<not> pending c" "0 < n"
  shows "(request ^^ n) c = c\<lparr>pending := True, scheduled := scheduled c + 1\<rparr>"
proof -
  obtain m where n: "n = Suc m" using assms(3) by (cases n) auto
  have "(request ^^ n) c = (request ^^ m) (request c)"
    unfolding n by (simp add: funpow_swap1)
  also have "\<dots> = request c"
    using assms(1,2) by (intro requests_pending) (simp add: request_def)
  finally show ?thesis using assms(1,2) by (simp add: request_idle)
qed

text \<open>
  Claim C6. From a running, idle coalescer: any positive number \<open>n\<close> of \<open>request\<close> calls
  schedules one wake-up, and the tick that follows runs exactly one pass and leaves the
  coalescer idle; a tick without a request runs no pass and schedules nothing; and when
  the pass itself calls \<open>request\<close> (any positive number \<open>k\<close> of times), that tick still
  runs one pass only, exactly one further wake-up is scheduled, and the next tick runs
  exactly one more pass.
\<close>

theorem requests_coalesce:
  assumes "running c" and "\<not> pending c" and "0 < n" and "0 < k"
  shows "scheduled ((request ^^ n) c) = scheduled c + 1
       \<and> passes (tick (requesting_pass 0) ((request ^^ n) c)) = passes c + 1
       \<and> \<not> pending (tick (requesting_pass 0) ((request ^^ n) c))
       \<and> scheduled (tick (requesting_pass 0) ((request ^^ n) c)) = scheduled c + 1
       \<and> tick pass c = c
       \<and> passes (tick (requesting_pass k) ((request ^^ n) c)) = passes c + 1
       \<and> pending (tick (requesting_pass k) ((request ^^ n) c))
       \<and> scheduled (tick (requesting_pass k) ((request ^^ n) c)) = scheduled c + 2
       \<and> passes (tick (requesting_pass 0) (tick (requesting_pass k) ((request ^^ n) c))) = passes c + 2
       \<and> \<not> pending (tick (requesting_pass 0) (tick (requesting_pass k) ((request ^^ n) c)))"
proof -
  let ?c1 = "c\<lparr>pending := True, scheduled := scheduled c + 1\<rparr>"
  have r: "(request ^^ n) c = ?c1" using requests_idle[OF assms(1,2,3)] .
  let ?c2 = "?c1\<lparr>pending := False, passes := passes c + 1\<rparr>"
  have t0: "tick (requesting_pass 0) ?c1 = ?c2"
    using assms(1) by (simp add: tick_def requesting_pass_def)
  have "running ?c2" "\<not> pending ?c2" using assms(1) by simp_all
  then have rk: "(request ^^ k) ?c2 = ?c2\<lparr>pending := True, scheduled := scheduled ?c2 + 1\<rparr>"
    using requests_idle[of ?c2 k] assms(4) by blast
  have tk: "tick (requesting_pass k) ?c1 = ?c2\<lparr>pending := True, scheduled := scheduled ?c2 + 1\<rparr>"
    using assms(1) rk by (simp add: tick_def requesting_pass_def)
  have idle: "tick pass c = c" using assms(2) by (simp add: tick_def)
  show ?thesis
    unfolding r t0 tk using idle assms(1) by (simp add: tick_def requesting_pass_def)
qed

theorem requests_coalesce_witness:
  "passes (tick (requesting_pass 0)
      ((request ^^ 50) \<lparr>running = True, pending = False, scheduled = 0, passes = 0\<rparr>)) = 1
   \<and> scheduled ((request ^^ 50) \<lparr>running = True, pending = False, scheduled = 0, passes = 0\<rparr>) = 1
   \<and> passes (tick (requesting_pass 3)
      ((request ^^ 50) \<lparr>running = True, pending = False, scheduled = 0, passes = 0\<rparr>)) = 1
   \<and> scheduled (tick (requesting_pass 3)
      ((request ^^ 50) \<lparr>running = True, pending = False, scheduled = 0, passes = 0\<rparr>)) = 2"
  using requests_coalesce[of "\<lparr>running = True, pending = False, scheduled = 0, passes = 0\<rparr>" 50 3]
  by simp

end
